theory Spec2Isabelle
  imports Complex_Main
begin

chapter \<open>PolicyChecker: the concurrent evidence-matching pipeline\<close>

text \<open>
  A shallow embedding of the backend services of the PolicyChecker repository
  (the relevance ranker of \<^verbatim>\<open>OptimizedPolicyService\<close>, the Drive content store
  \<^verbatim>\<open>OptimizedDriveService\<close>, the Gemini dispatcher \<^verbatim>\<open>OptimizedGeminiService\<close> and the
  \<^verbatim>\<open>ParallelProcessor\<close> of the process controller), followed by the properties
  proved about them. JavaScript strings are lists of code units; the functions that
  only compare, search and measure strings are polymorphic in the code-unit type.
  Awaited calls to collaborators (Drive, Gemini, the PDF extractor, the clock) are
  inputs of the model: every function takes the outcome of each external call it
  awaits, a rejection being the value \<open>Inl\<close>.
\<close>

section \<open>JavaScript helpers\<close>

text \<open>\<^verbatim>\<open>a.includes(sub)\<close>: \<open>sub\<close> occurs in \<open>a\<close> as a contiguous run of code units.\<close>

fun str_includes :: "'a list \<Rightarrow> 'a list \<Rightarrow> bool" where
  "str_includes [] sub = (sub = [])"
| "str_includes (c # cs) sub = (take (length sub) (c # cs) = sub \<or> str_includes cs sub)"

text \<open>\<^verbatim>\<open>s.charAt(i)\<close>: the one-unit string at \<open>i\<close>, the empty string out of range.\<close>

definition charAt :: "'a list \<Rightarrow> nat \<Rightarrow> 'a list" where
  "charAt s i = (if i < length s then [s ! i] else [])"

text \<open>\<^verbatim>\<open>s.split(sep)\<close> for a one-unit separator: the pieces between separators, empty pieces kept.\<close>

fun split_on :: "'a \<Rightarrow> 'a list \<Rightarrow> 'a list list" where
  "split_on sep [] = [[]]"
| "split_on sep (c # cs) =
     (if c = sep then [] # split_on sep cs
      else (case split_on sep cs of [] \<Rightarrow> [[c]] | w # ws \<Rightarrow> (c # w) # ws))"

text \<open>
  The outcome of a promise as \<^verbatim>\<open>Promise.allSettled\<close> reports it. A task is a value
  of a sum type (\<open>Inl\<close> a rejection); \<open>allSettled\<close> never rejects itself.
\<close>

datatype ('e, 'a) settled = Fulfilled 'a | Rejected 'e

definition allSettled :: "('e + 'a) list \<Rightarrow> ('e, 'a) settled list" where
  "allSettled ps = map (\<lambda>p. case p of Inl e \<Rightarrow> Rejected e | Inr v \<Rightarrow> Fulfilled v) ps"

text \<open>The errors the services raise: \<^verbatim>\<open>ApiError(status, message)\<close> and any other thrown value.\<close>

datatype error = ApiError nat string | OtherError string

section \<open>RelevanceRanker: \<^verbatim>\<open>OptimizedPolicyService\<close> scoring\<close>

subsection \<open>\<^verbatim>\<open>levenshteinDistance\<close>\<close>

text \<open>
  The matrix is a JavaScript array of arrays. An array is a map from indices to
  elements (\<open>None\<close> is \<^verbatim>\<open>undefined\<close>), so that a read of a cell never written and an
  assignment at any index are both what they are in the source. A row that was
  never created reads as the empty array. Arithmetic on \<^verbatim>\<open>undefined\<close> gives
  \<^verbatim>\<open>NaN\<close>, which is \<open>None\<close> as well.
\<close>

type_synonym js_matrix = "nat \<Rightarrow> nat \<rightharpoonup> nat"

text \<open>\<^verbatim>\<open>matrix[i] = [v]\<close>\<close>

definition js_new_row :: "js_matrix \<Rightarrow> nat \<Rightarrow> nat \<Rightarrow> js_matrix" where
  "js_new_row m i v = m(i := [0 \<mapsto> v])"

text \<open>\<^verbatim>\<open>matrix[i][j] = v\<close>\<close>

definition js_set_cell :: "js_matrix \<Rightarrow> nat \<Rightarrow> nat \<Rightarrow> nat option \<Rightarrow> js_matrix" where
  "js_set_cell m i j v = m(i := (m i)(j := v))"

definition js_plus1 :: "nat option \<Rightarrow> nat option" where
  "js_plus1 a = map_option Suc a"

text \<open>\<^verbatim>\<open>Math.min(a, b, c)\<close>: \<^verbatim>\<open>NaN\<close> as soon as one argument is.\<close>

definition js_min3 :: "nat option \<Rightarrow> nat option \<Rightarrow> nat option \<Rightarrow> nat option" where
  "js_min3 a b c =
     (case a of None \<Rightarrow> None | Some x \<Rightarrow>
       (case b of None \<Rightarrow> None | Some y \<Rightarrow>
         (case c of None \<Rightarrow> None | Some z \<Rightarrow> Some (min x (min y z)))))"

text \<open>First loop: \<^verbatim>\<open>for (i = 0; i <= str2.length; i++) matrix[i] = [i]\<close>.\<close>

definition lev_init_rows :: "nat \<Rightarrow> js_matrix" where
  "lev_init_rows n2 = foldl (\<lambda>m i. js_new_row m i i) (\<lambda>_. Map.empty) [0..<Suc n2]"

text \<open>Second loop: \<^verbatim>\<open>for (j = 0; j <= str1.length; j++) matrix[0][j] = j\<close>.\<close>

definition lev_init_row0 :: "nat \<Rightarrow> js_matrix \<Rightarrow> js_matrix" where
  "lev_init_row0 n1 m0 = foldl (\<lambda>m j. js_set_cell m 0 j (Some j)) m0 [0..<Suc n1]"

text \<open>The value assigned to \<^verbatim>\<open>matrix[i][j]\<close> in the body of the nested loops.\<close>

definition lev_cell :: "'a list \<Rightarrow> 'a list \<Rightarrow> js_matrix \<Rightarrow> nat \<Rightarrow> nat \<Rightarrow> nat option" where
  "lev_cell str1 str2 m i j =
     (if charAt str2 (i - 1) = charAt str1 (j - 1) then m (i - 1) (j - 1)
      else js_min3 (js_plus1 (m (i - 1) (j - 1))) (js_plus1 (m i (j - 1))) (js_plus1 (m (i - 1) j)))"

text \<open>Inner loop, \<^verbatim>\<open>for (j = 1; j <= str1.length; j++)\<close>, for one \<open>i\<close>.\<close>

definition lev_fill_row :: "'a list \<Rightarrow> 'a list \<Rightarrow> js_matrix \<Rightarrow> nat \<Rightarrow> js_matrix" where
  "lev_fill_row str1 str2 m0 i =
     foldl (\<lambda>m j. js_set_cell m i j (lev_cell str1 str2 m i j)) m0 [1..<Suc (length str1)]"

text \<open>Outer loop, \<^verbatim>\<open>for (i = 1; i <= str2.length; i++)\<close>.\<close>

definition lev_fill :: "'a list \<Rightarrow> 'a list \<Rightarrow> js_matrix \<Rightarrow> js_matrix" where
  "lev_fill str1 str2 m0 = foldl (lev_fill_row str1 str2) m0 [1..<Suc (length str2)]"

definition levenshteinDistance :: "'a list \<Rightarrow> 'a list \<Rightarrow> nat option" where
  "levenshteinDistance str1 str2 =
     lev_fill str1 str2 (lev_init_row0 (length str1) (lev_init_rows (length str2)))
       (length str2) (length str1)"

text \<open>
  The classic dynamic-programming recurrence of the edit distance, on the prefixes
  of length \<open>i\<close> of \<open>a\<close> and \<open>j\<close> of \<open>b\<close>, as the specification names it; it is the
  reference the matrix code is compared with.
\<close>

fun lev_rec :: "'a list \<Rightarrow> 'a list \<Rightarrow> nat \<Rightarrow> nat \<Rightarrow> nat" where
  "lev_rec a b 0 j = j"
| "lev_rec a b (Suc i) 0 = Suc i"
| "lev_rec a b (Suc i) (Suc j) =
     (if a ! i = b ! j then lev_rec a b i j
      else 1 + min (lev_rec a b i j) (min (lev_rec a b (Suc i) j) (lev_rec a b i (Suc j))))"

definition levenshtein :: "'a list \<Rightarrow> 'a list \<Rightarrow> nat" where
  "levenshtein a b = lev_rec a b (length a) (length b)"

subsection \<open>\<^verbatim>\<open>fuzzyMatch\<close>\<close>

text \<open>
  \<^verbatim>\<open>fuzzyMatch(str1, str2, threshold = 0.7)\<close>. The result is used as a condition only, so
  the \<^verbatim>\<open>1.0\<close> returned for two empty strings is \<open>True\<close>. The quotient is computed in
  exact arithmetic: numerator and denominator are lengths of strings, far below the
  magnitude (about \<open>10\<^sup>1\<^sup>4\<close>) at which the rounding of the double division could
  change the comparison with \<^verbatim>\<open>0.7\<close>. A comparison with \<^verbatim>\<open>NaN\<close> is false.
\<close>

definition fuzzyMatch3 :: "'a list \<Rightarrow> 'a list \<Rightarrow> real \<Rightarrow> bool" where
  "fuzzyMatch3 str1 str2 threshold =
     (let longer = (if length str1 > length str2 then str1 else str2);
          shorter = (if length str1 > length str2 then str2 else str1)
      in if length longer = 0 then True
         else (case levenshteinDistance longer shorter of
                 None \<Rightarrow> False
               | Some editDistance \<Rightarrow>
                   (real (length longer) - real editDistance) / real (length longer) \<ge> threshold))"

definition fuzzyMatch :: "'a list \<Rightarrow> 'a list \<Rightarrow> bool" where
  "fuzzyMatch str1 str2 = fuzzyMatch3 str1 str2 (7 / 10)"

subsection \<open>\<^verbatim>\<open>calculateRelevanceScore\<close>\<close>

text \<open>The objects built by \<^verbatim>\<open>normalizeQuestion\<close> and \<^verbatim>\<open>normalizePolicy\<close>.\<close>

record normalized_question =
  nq_keywords :: "string list"
  nq_category :: string
  nq_text :: string
  nq_description :: string

record normalized_policy =
  np_keywords :: "string list"
  np_category :: string
  np_description :: string
  np_name :: string

text \<open>The body of the inner \<^verbatim>\<open>policy.keywords.forEach\<close>: three independent bonuses.\<close>

definition keywordPairScore :: "string \<Rightarrow> string \<Rightarrow> int \<Rightarrow> int" where
  "keywordPairScore qKeyword pKeyword score =
     (let s1 = (if str_includes pKeyword qKeyword \<or> str_includes qKeyword pKeyword then score + 20 else score);
          s2 = (if pKeyword = qKeyword then s1 + 30 else s1);
          s3 = (if fuzzyMatch pKeyword qKeyword then s2 + 15 else s2)
      in s3)"

definition calculateRelevanceScore :: "normalized_question \<Rightarrow> normalized_policy \<Rightarrow> int" where
  "calculateRelevanceScore question policy =
     (let score0 = (if np_category policy = nq_category question then 50 else 0);
          score1 = foldl (\<lambda>s qKeyword. foldl (\<lambda>s' pKeyword. keywordPairScore qKeyword pKeyword s')
                                         s (np_keywords policy))
                     score0 (nq_keywords question);
          score2 = foldl (\<lambda>s keyword. if str_includes (np_description policy) keyword then s + 10 else s)
                     score1 (nq_keywords question);
          score3 = foldl (\<lambda>s keyword. if str_includes (np_description policy) keyword
                                         \<or> str_includes (np_name policy) keyword then s + 5 else s)
                     score2 (nq_keywords question);
          questionWords = filter (\<lambda>word. length word > 3) (split_on CHR '' '' (nq_text question));
          score4 = foldl (\<lambda>s word. if str_includes (np_description policy) word then s + 3 else s)
                     score3 questionWords
      in score4)"

section \<open>ReasoningDispatcher: \<^verbatim>\<open>OptimizedGeminiService\<close>\<close>

subsection \<open>The service object\<close>

text \<open>An entry of \<^verbatim>\<open>requestHistory\<close>. Durations are differences of \<^verbatim>\<open>Date.now()\<close> readings.\<close>

record request_record =
  rr_type :: string
  rr_duration :: int
  rr_timestamp :: int
  rr_success :: bool



subsection \<open>\<^verbatim>\<open>makeGeminiRequest\<close>\<close>








subsection \<open>\<^verbatim>\<open>adjustAdaptiveDelay\<close>\<close>







subsection \<open>\<^verbatim>\<open>findKeywordPositions\<close> and \<^verbatim>\<open>smartTruncatePolicyText\<close>\<close>

text \<open>
  \<^verbatim>\<open>text.indexOf(keyword, fromIndex)\<close>: the search starts at \<open>fromIndex\<close> clamped to the
  length of the text; the empty keyword is found at once, at the clamped start;
  \<open>-1\<close> when there is no occurrence. \<open>find_from\<close> scans the rest of the text, \<open>pos\<close>
  being the index of its first unit.
\<close>

fun find_from :: "'a list \<Rightarrow> 'a list \<Rightarrow> nat \<Rightarrow> nat option" where
  "find_from [] keyword pos = (if keyword = [] then Some pos else None)"
| "find_from (c # cs) keyword pos =
     (if take (length keyword) (c # cs) = keyword then Some pos
      else find_from cs keyword (Suc pos))"

definition indexOf :: "'a list \<Rightarrow> 'a list \<Rightarrow> nat \<Rightarrow> int" where
  "indexOf text keyword fromIndex =
     (let start = min fromIndex (length text)
      in case find_from (drop start text) keyword start of None \<Rightarrow> - 1 | Some k \<Rightarrow> int k)"

text \<open>
  The \<^verbatim>\<open>while (index !== -1)\<close> loop of \<^verbatim>\<open>findKeywordPositions\<close>. Nothing in the source
  bounds it, so it is a partial function: \<open>None\<close> is a loop that never ends.
\<close>

partial_function (option) findKeywordPositions_loop ::
  "'a list \<Rightarrow> 'a list \<Rightarrow> int \<Rightarrow> nat list \<Rightarrow> nat list option" where
  "findKeywordPositions_loop text keyword index positions =
     (if index \<noteq> - 1
      then findKeywordPositions_loop text keyword
             (indexOf text keyword (nat index + 1)) (positions @ [nat index])
      else Some positions)"

definition findKeywordPositions :: "'a list \<Rightarrow> 'a list \<Rightarrow> nat list option" where
  "findKeywordPositions text keyword =
     findKeywordPositions_loop text keyword (indexOf text keyword 0) []"

text \<open>
  \<^verbatim>\<open>s.substring(start, end)\<close>: both indices are clamped to the string and swapped when
  \<open>start > end\<close>.
\<close>

definition substring :: "'a list \<Rightarrow> nat \<Rightarrow> nat \<Rightarrow> 'a list" where
  "substring s start end' =
     (let a = min start (length s); b = min end' (length s)
      in take (max a b - min a b) (drop (min a b) s))"

text \<open>\<^verbatim>\<open>parts.join(sep)\<close>\<close>

fun join :: "'a list \<Rightarrow> 'a list list \<Rightarrow> 'a list" where
  "join sep [] = []"
| "join sep [x] = x"
| "join sep (x # y # ys) = x @ sep @ join sep (y # ys)"

text \<open>
  \<^verbatim>\<open>toLowerCase\<close> is the host's case mapping. The functions that call it take it as the
  parameter \<open>lc\<close>, so that what is proved of them holds for the mapping of the host,
  whatever it does to units outside ASCII and even where it changes the length of a
  string. \<open>toLowerCase\<close> below is the mapping on ASCII letters, used in the examples.
\<close>

definition lower_unit :: "char \<Rightarrow> char" where
  "lower_unit c = (if 65 \<le> (of_char c :: nat) \<and> (of_char c :: nat) \<le> 90
                   then char_of ((of_char c :: nat) + 32) else c)"

definition toLowerCase :: "string \<Rightarrow> string" where
  "toLowerCase s = map lower_unit s"

text \<open>The separator \<^verbatim>\<open>'\n...\n'\<close> and the marker \<^verbatim>\<open>'...[truncated]'\<close>.\<close>

definition section_separator :: string where
  "section_separator = [CHR 0x0A] @ ''...'' @ [CHR 0x0A]"

definition truncation_marker :: string where
  "truncation_marker = ''...[truncated]''"

text \<open>
  The \<^verbatim>\<open>keywords.forEach\<close> that gathers the positions of every keyword; it does not
  return when one of the searches does not.
\<close>

definition collectKeywordPositions ::
  "(string \<Rightarrow> string) \<Rightarrow> string \<Rightarrow> string list \<Rightarrow> nat list option" where
  "collectKeywordPositions lc text keywords =
     foldl (\<lambda>acc keyword.
              case acc of None \<Rightarrow> None
              | Some keywordPositions \<Rightarrow>
                  (case findKeywordPositions (lc text) (lc keyword) of None \<Rightarrow> None
                   | Some positions \<Rightarrow> Some (keywordPositions @ positions)))
           (Some []) keywords"

definition smartTruncatePolicyText ::
  "(string \<Rightarrow> string) \<Rightarrow> string \<Rightarrow> string list \<Rightarrow> string option" where
  "smartTruncatePolicyText lc text keywords =
     (let maxLength = 18000
      in if length text \<le> maxLength then Some text
         else (case collectKeywordPositions lc text keywords of
                 None \<Rightarrow> None
               | Some keywordPositions \<Rightarrow>
                   (let fallback = substring text 0 maxLength @ truncation_marker
                    in if length keywordPositions > 0 then
                         (let sorted = sort keywordPositions;
                              relevantSections =
                                map (\<lambda>pos. substring text (nat (max 0 (int pos - 500)))
                                                         (min (length text) (pos + 1500))) sorted;
                              combinedText = join section_separator relevantSections
                          in if length combinedText \<le> maxLength then Some combinedText
                             else Some fallback)
                       else Some fallback)))"

text \<open>
  The positions at which \<open>keyword\<close> occurs in \<open>text\<close>, in ascending order: the
  reference the search loop is compared with.
\<close>

definition occurrences :: "'a list \<Rightarrow> 'a list \<Rightarrow> nat list" where
  "occurrences text keyword =
     filter (\<lambda>p. take (length keyword) (drop p text) = keyword) [0..<length text]"

section \<open>BatchOrchestrator: \<^verbatim>\<open>ParallelProcessor\<close>\<close>

subsection \<open>Data\<close>

text \<open>
  A question. \<open>q_id\<close> is the property key that \<^verbatim>\<open>evidenceByQuestion[question.id]\<close> uses,
  that is the id converted to a string.
\<close>

record question =
  q_id :: string
  q_text :: string
  q_category :: string
  q_keywords :: "string list"
  q_description :: string
  q_requiresEvidence :: bool

text \<open>An entry of the policy index with the score \<^verbatim>\<open>findRelevantPolicies\<close> attached.\<close>

record scored_policy =
  p_subfolder :: string
  p_pdf_name :: string
  p_category :: string
  p_keywords :: "string list"
  p_short_description :: string
  p_score :: int

text \<open>
  A value found in the parsed response of the reasoning capability where the prompt asks
  for a string: \<open>JsString s\<close> is the string \<open>s\<close>, and \<open>JsOther key\<close> is any other value (a
  number, a boolean, \<^verbatim>\<open>null\<close>, an array, an object, or the \<^verbatim>\<open>undefined\<close> of a missing
  field), \<open>key\<close> being the property key it converts to. \<open>propertyKey\<close> is the key under
  which \<^verbatim>\<open>object[value]\<close> looks the value up; \<^verbatim>\<open>value === 'yes'\<close> holds of the string
  \<^verbatim>\<open>yes\<close> only.
\<close>

datatype js_value = JsString string | JsOther string

fun propertyKey :: "js_value \<Rightarrow> string" where
  "propertyKey (JsString s) = s"
| "propertyKey (JsOther key) = key"

text \<open>
  The evidence object built by \<^verbatim>\<open>searchForComplianceEvidence\<close>. \<open>c_answer\<close> and
  \<open>c_confidence\<close> are copied from the response of the reasoning capability; nothing in
  the code restricts them to the values the prompt asks for.
\<close>

record evidence_candidate =
  c_docName :: string
  c_subfolder :: string
  c_answer :: js_value
  c_evidence :: string
  c_pageReference :: string
  c_confidence :: js_value
  c_explanation :: string
  c_score :: int

record processing_stats =
  totalQuestions :: nat
  questionsProcessed :: nat
  totalPoliciesChecked :: nat
  evidenceFound :: nat
  compliantAnswers :: nat
  nonCompliantAnswers :: nat
  cacheHits :: nat
  downloadTime :: int
  analysisTime :: int

subsection \<open>\<^verbatim>\<open>createBatches\<close>\<close>

text \<open>\<^verbatim>\<open>array.slice(i, j)\<close> for \<open>i \<le> j\<close>.\<close>

definition slice :: "'a list \<Rightarrow> nat \<Rightarrow> nat \<Rightarrow> 'a list" where
  "slice array i j = take (j - i) (drop i array)"

text \<open>
  The loop \<^verbatim>\<open>for (i = 0; i < array.length; i += batchSize)\<close>. Every call in the source
  passes a positive constant (3, 5, 8 or 2); with \<open>batchSize = 0\<close> the source does not
  leave the loop, and the model is not meant for it.
\<close>

function createBatches_from :: "nat \<Rightarrow> 'a list \<Rightarrow> nat \<Rightarrow> 'a list list" where
  "createBatches_from i array batchSize =
     (if i < length array \<and> 0 < batchSize
      then slice array i (i + batchSize) # createBatches_from (i + batchSize) array batchSize
      else [])"
  by pat_completeness auto
termination
  by (relation "measure (\<lambda>(i, array, batchSize). length array - i)") auto

definition createBatches :: "'a list \<Rightarrow> nat \<Rightarrow> 'a list list" where
  "createBatches array batchSize = createBatches_from 0 array batchSize"

subsection \<open>The ranking of the candidates\<close>

text \<open>
  The lookups \<^verbatim>\<open>confidenceOrder[x]\<close> and \<^verbatim>\<open>answerOrder[x]\<close> in the two object literals;
  \<open>None\<close> is a value that is no number (\<^verbatim>\<open>undefined\<close>, or an inherited property).
\<close>

definition confidenceOrder :: "string \<Rightarrow> int option" where
  "confidenceOrder x =
     (if x = ''high'' then Some 3 else if x = ''medium'' then Some 2
      else if x = ''low'' then Some 1 else None)"

definition answerOrder :: "string \<Rightarrow> int option" where
  "answerOrder x =
     (if x = ''yes'' then Some 3 else if x = ''no'' then Some 2
      else if x = ''partial'' then Some 1 else None)"

text \<open>
  The comparator given to \<^verbatim>\<open>candidates.sort\<close>. \<open>None\<close> is \<^verbatim>\<open>NaN\<close>: a difference with
  a value that is no number, returned at once because \<^verbatim>\<open>NaN !== 0\<close>.
\<close>

definition compareCandidates :: "evidence_candidate \<Rightarrow> evidence_candidate \<Rightarrow> int option" where
  "compareCandidates a b =
     (case (confidenceOrder (propertyKey (c_confidence b)),
            confidenceOrder (propertyKey (c_confidence a))) of
        (Some cb, Some ca) \<Rightarrow>
          (let confDiff = cb - ca
           in if confDiff \<noteq> 0 then Some confDiff
              else (case (answerOrder (propertyKey (c_answer b)),
                          answerOrder (propertyKey (c_answer a))) of
                      (Some ab, Some aa) \<Rightarrow>
                        (let answerDiff = ab - aa
                         in if answerDiff \<noteq> 0 then Some answerDiff
                            else Some (c_score b - c_score a))
                    | _ \<Rightarrow> None))
      | _ \<Rightarrow> None)"

text \<open>
  \<^verbatim>\<open>Array.prototype.sort(comparefn)\<close>, as the engine of Node.js (V8, from its version
  7.0) runs it on an array of fewer than 64 elements, none of them \<^verbatim>\<open>undefined\<close>. The
  result of the comparator is read as a number, a \<^verbatim>\<open>NaN\<close> as \<open>0\<close>. The engine finds the
  run at the start of the array (\<^verbatim>\<open>CountAndMakeRun\<close>), turns it round when it is
  descending, and puts each later element into the sorted part at the place a binary
  search gives (\<^verbatim>\<open>BinaryInsertionSort\<close>); an array of 64 elements or more is cut into
  several runs, which are merged, and is not modelled. \<^verbatim>\<open>processQuestionParallel\<close> sorts
  at most 10 candidates.
\<close>

definition sortCompare :: "('a \<Rightarrow> 'a \<Rightarrow> int option) \<Rightarrow> 'a \<Rightarrow> 'a \<Rightarrow> int" where
  "sortCompare comparefn x y = (case comparefn x y of None \<Rightarrow> 0 | Some v \<Rightarrow> v)"

text \<open>
  The loop of \<^verbatim>\<open>CountAndMakeRun\<close> over the elements after the first two: how many of
  them go on with the run. A descending run goes on while the order of the current
  element and the previous one is negative, any other run while it is not.
\<close>

fun run_extent :: "('a \<Rightarrow> 'a \<Rightarrow> int) \<Rightarrow> bool \<Rightarrow> 'a \<Rightarrow> 'a list \<Rightarrow> nat" where
  "run_extent order isDescending previousElement [] = 0"
| "run_extent order isDescending previousElement (currentElement # rest) =
     (if (if isDescending then order currentElement previousElement \<ge> 0
          else order currentElement previousElement < 0)
      then 0
      else Suc (run_extent order isDescending currentElement rest))"

text \<open>
  \<^verbatim>\<open>CountAndMakeRun(0, length)\<close>: the length of the run at the start of the array, and
  the array with that run reversed when it is descending.
\<close>

definition countAndMakeRun :: "('a \<Rightarrow> 'a \<Rightarrow> int) \<Rightarrow> 'a list \<Rightarrow> nat \<times> 'a list" where
  "countAndMakeRun order workArray =
     (case workArray of
        elementHigh # elementLow # rest \<Rightarrow>
          (let isDescending = order elementLow elementHigh < 0;
               runLength = 2 + run_extent order isDescending elementLow rest
           in (runLength,
               if isDescending then rev (take runLength workArray) @ drop runLength workArray
               else workArray))
      | _ \<Rightarrow> (length workArray, workArray))"

text \<open>
  The search loop of \<^verbatim>\<open>BinaryInsertionSort\<close>: \<^verbatim>\<open>while (left < right)\<close> with
  \<^verbatim>\<open>mid = left + ((right - left) >> 1)\<close>. It reads the array below \<open>right\<close> only.
\<close>

function binarySearch :: "('a \<Rightarrow> 'a \<Rightarrow> int) \<Rightarrow> 'a list \<Rightarrow> 'a \<Rightarrow> nat \<Rightarrow> nat \<Rightarrow> nat" where
  "binarySearch order workArray pivot left right =
     (if left < right
      then (let mid = left + (right - left) div 2
            in if order pivot (workArray ! mid) < 0
               then binarySearch order workArray pivot left mid
               else binarySearch order workArray pivot (mid + 1) right)
      else left)"
  by pat_completeness auto
termination
  by (relation "measure (\<lambda>(order, workArray, pivot, left, right). right - left)") auto

text \<open>
  One turn of the outer loop of \<^verbatim>\<open>BinaryInsertionSort\<close>, for \<open>start\<close> below the length of
  the array: the element at \<open>start\<close> is the pivot, the elements from \<open>left\<close> to
  \<open>start - 1\<close> move one slot up, and the pivot goes to \<open>left\<close>.
\<close>

definition insertPivot :: "('a \<Rightarrow> 'a \<Rightarrow> int) \<Rightarrow> 'a list \<Rightarrow> nat \<Rightarrow> 'a list" where
  "insertPivot order workArray start =
     (let pivot = workArray ! start;
          left = binarySearch order workArray pivot 0 start
      in take left workArray @ pivot # take (start - left) (drop left workArray)
           @ drop (Suc start) workArray)"

text \<open>\<^verbatim>\<open>BinaryInsertionSort(0, startArg, high)\<close>.\<close>

definition binaryInsertionSort :: "('a \<Rightarrow> 'a \<Rightarrow> int) \<Rightarrow> 'a list \<Rightarrow> nat \<Rightarrow> nat \<Rightarrow> 'a list" where
  "binaryInsertionSort order workArray startArg high =
     foldl (insertPivot order) workArray [(if startArg = 0 then startArg + 1 else startArg)..<high]"

text \<open>
  The sort: nothing to do below two elements; otherwise the run at the start, then the
  insertion of the elements after the run.
\<close>

definition js_sort :: "('a \<Rightarrow> 'a \<Rightarrow> int option) \<Rightarrow> 'a list \<Rightarrow> 'a list" where
  "js_sort comparefn array =
     (if length array < 2 then array
      else (case countAndMakeRun (sortCompare comparefn) array of
              (currentRunLength, workArray) \<Rightarrow>
                if currentRunLength < length array
                then binaryInsertionSort (sortCompare comparefn) workArray currentRunLength
                       (length array)
                else workArray))"

text \<open>
  The ranks the specification orders by, and the order itself: \<open>a\<close> may stand before
  \<open>b\<close> when its confidence rank is higher, or equal with a higher answer rank, or both
  equal with a score at least as high.
\<close>

definition confidenceRank :: "evidence_candidate \<Rightarrow> int" where
  "confidenceRank c =
     (case confidenceOrder (propertyKey (c_confidence c)) of Some r \<Rightarrow> r | None \<Rightarrow> 0)"

definition answerRank :: "evidence_candidate \<Rightarrow> int" where
  "answerRank c = (case answerOrder (propertyKey (c_answer c)) of Some r \<Rightarrow> r | None \<Rightarrow> 0)"


definition ranked_before :: "evidence_candidate \<Rightarrow> evidence_candidate \<Rightarrow> bool" where
  "ranked_before a b \<longleftrightarrow>
     confidenceRank a > confidenceRank b
     \<or> (confidenceRank a = confidenceRank b
        \<and> (answerRank a > answerRank b
           \<or> (answerRank a = answerRank b \<and> c_score a \<ge> c_score b)))"

definition well_formed_candidate :: "evidence_candidate \<Rightarrow> bool" where
  "well_formed_candidate c \<longleftrightarrow>
     c_confidence c \<in> {JsString ''high'', JsString ''medium'', JsString ''low''}
     \<and> c_answer c \<in> {JsString ''yes'', JsString ''no'', JsString ''partial''}"

subsection \<open>\<^verbatim>\<open>processQuestionParallel\<close>\<close>

text \<open>\<^verbatim>\<open>array[i]\<close>: \<open>None\<close> is the \<^verbatim>\<open>undefined\<close> read out of range.\<close>

definition js_index :: "'a list \<Rightarrow> nat \<Rightarrow> 'a option" where
  "js_index array i = (if i < length array then Some (array ! i) else None)"

text \<open>
  The outcomes of what one call of \<^verbatim>\<open>processQuestionParallel\<close> awaits:
  \<^item> \<open>relevantPolicies\<close>: how \<^verbatim>\<open>findRelevantPolicies(question, 10)\<close> ends: what it throws,
    or the policies of positive score in descending order of score, of which it returns
    the first 10 (its last step, \<^verbatim>\<open>.slice(0, maxResults)\<close>; every call passes 10, so a
    list answered from its cache has gone through the same step);
  \<^item> \<open>policyChecks\<close>: what \<^verbatim>\<open>batchCheckPolicyExistence\<close> resolves to, or its rejection;
  \<^item> \<open>policyContents\<close>: the array of \<^verbatim>\<open>batchDownloadPolicies\<close>, \<open>None\<close> being \<^verbatim>\<open>null\<close>
    (that function catches every failure itself);
  \<^item> \<open>analysisOutcome g\<close>: how the promise of \<^verbatim>\<open>analyzyePolicyWithCache\<close> for the policy
    at index \<open>g\<close> of \<^verbatim>\<open>existingPolicies\<close> settles, \<open>None\<close> being \<^verbatim>\<open>null\<close>;
  \<^item> \<open>downloadMs\<close>, \<open>analysisMs b\<close>: the \<^verbatim>\<open>Date.now()\<close> differences added to the stats,
    for the download and for the \<open>b\<close>-th policy batch.
\<close>

record question_env =
  relevantPolicies :: "error + scored_policy list"
  policyChecks :: "error + bool list"
  policyContents :: "string option list"
  analysisOutcome :: "nat \<Rightarrow> (error, evidence_candidate option) settled"
  downloadMs :: int
  analysisMs :: "nat \<Rightarrow> int"

text \<open>
  \<^verbatim>\<open>relevantPolicies.filter((policy, index) => policyChecks[index])\<close>. The policies are
  objects created one by one by \<^verbatim>\<open>findRelevantPolicies\<close>, so \<^verbatim>\<open>findIndex(p => p === policy)\<close>
  is the position of the policy: a policy travels with its index.
\<close>

definition existingPoliciesOf :: "scored_policy list \<Rightarrow> bool list \<Rightarrow> scored_policy list" where
  "existingPoliciesOf relevant checks =
     map snd (filter (\<lambda>(index, policy). js_index checks index = Some True) (enumerate 0 relevant))"

text \<open>
  The promise made for one policy of a batch: resolved with \<^verbatim>\<open>null\<close> when there is no
  text for it (\<^verbatim>\<open>!policyText\<close>: \<^verbatim>\<open>undefined\<close>, \<^verbatim>\<open>null\<close> or the empty string), the
  analysis otherwise.
\<close>

definition policyPromise ::
  "question_env \<Rightarrow> nat \<times> scored_policy \<Rightarrow> (error, evidence_candidate option) settled" where
  "policyPromise env ip =
     (case ip of (globalIndex, policy) \<Rightarrow>
        (case js_index (policyContents env) globalIndex of
           Some (Some policyText) \<Rightarrow>
             if policyText = [] then Fulfilled None else analysisOutcome env globalIndex
         | _ \<Rightarrow> Fulfilled None))"

text \<open>The updates of the shared \<^verbatim>\<open>processingStats\<close>, each one a step no other task interrupts.\<close>

definition addDownloadTime :: "int \<Rightarrow> processing_stats \<Rightarrow> processing_stats" where
  "addDownloadTime ms st = st\<lparr>downloadTime := downloadTime st + ms\<rparr>"

definition addAnalysisTime :: "int \<Rightarrow> processing_stats \<Rightarrow> processing_stats" where
  "addAnalysisTime ms st = st\<lparr>analysisTime := analysisTime st + ms\<rparr>"

text \<open>The callback of \<^verbatim>\<open>batchResults.forEach\<close> over the settled analyses.\<close>

definition recordPolicyResult ::
  "(error, evidence_candidate option) settled
     \<Rightarrow> evidence_candidate list \<times> processing_stats \<Rightarrow> evidence_candidate list \<times> processing_stats" where
  "recordPolicyResult result acc =
     (case acc of (candidates, st) \<Rightarrow>
        (case result of
           Fulfilled (Some value) \<Rightarrow>
             (candidates @ [value],
              (let st1 = st\<lparr>evidenceFound := evidenceFound st + 1,
                             totalPoliciesChecked := totalPoliciesChecked st + 1\<rparr>
               in if c_answer value = JsString ''yes''
                  then st1\<lparr>compliantAnswers := compliantAnswers st1 + 1\<rparr>
                  else if c_answer value = JsString ''no''
                  then st1\<lparr>nonCompliantAnswers := nonCompliantAnswers st1 + 1\<rparr>
                  else st1))
         | Fulfilled None \<Rightarrow> (candidates, st\<lparr>totalPoliciesChecked := totalPoliciesChecked st + 1\<rparr>)
         | Rejected reason \<Rightarrow> (candidates, st)))"

text \<open>
  The loop over the policy batches; \<open>b\<close> counts the batches. The pause of 500 ms
  between two batches touches neither the candidates nor the stats and is left out.
\<close>

fun processPolicyBatches ::
  "question_env \<Rightarrow> nat \<Rightarrow> (nat \<times> scored_policy) list list
     \<Rightarrow> evidence_candidate list \<times> processing_stats \<Rightarrow> evidence_candidate list \<times> processing_stats" where
  "processPolicyBatches env b [] acc = acc"
| "processPolicyBatches env b (policyBatch # rest) acc =
     (let batchResults = map (policyPromise env) policyBatch;
          acc1 = (fst acc, addAnalysisTime (analysisMs env b) (snd acc));
          acc2 = foldl (\<lambda>acc' result. recordPolicyResult result acc') acc1 batchResults
      in processPolicyBatches env (b + 1) rest acc2)"

text \<open>
  \<^verbatim>\<open>processQuestionParallel(question, policyIndex, processingStats)\<close>: the value the
  promise settles with (\<open>Inl\<close> when the \<^verbatim>\<open>catch\<close> rethrows) and the stats as the call
  leaves them. The question itself only travels to the collaborators, whose answers
  are \<open>env\<close>. \<open>relevant\<close> is the array that the source names \<^verbatim>\<open>relevantPolicies\<close>: the
  first 10 policies of the ranking, as \<^verbatim>\<open>findRelevantPolicies\<close> cuts it before it returns.
\<close>

definition processQuestionParallel ::
  "question_env \<Rightarrow> question \<Rightarrow> processing_stats
     \<Rightarrow> (error + evidence_candidate list) \<times> processing_stats" where
  "processQuestionParallel env question processingStats =
     (case relevantPolicies env of
        Inl err \<Rightarrow> (Inl err, processingStats)
      | Inr ranked \<Rightarrow>
          let relevant = slice ranked 0 10
          in if length relevant = 0 then (Inr [], processingStats)
          else (case policyChecks env of
                  Inl err \<Rightarrow> (Inl err, processingStats)
                | Inr checks \<Rightarrow>
                    (let existingPolicies = existingPoliciesOf relevant checks
                     in if length existingPolicies = 0 then (Inr [], processingStats)
                        else
                          (let st1 = addDownloadTime (downloadMs env) processingStats;
                               policyBatches = createBatches (enumerate 0 existingPolicies) 5;
                               done = processPolicyBatches env 0 policyBatches ([], st1)
                           in (Inr (js_sort compareCandidates (fst done)), snd done)))))"

text \<open>
  The candidates in the order in which the loop meets them: the evidence of every
  existing policy whose analysis is fulfilled with an object, by index.
\<close>

definition encounteredCandidates :: "question_env \<Rightarrow> evidence_candidate list" where
  "encounteredCandidates env =
     (case (relevantPolicies env, policyChecks env) of
        (Inr ranked, Inr checks) \<Rightarrow>
          concat (map (\<lambda>ip. case policyPromise env ip of
                               Fulfilled (Some value) \<Rightarrow> [value] | _ \<Rightarrow> [])
                      (enumerate 0 (existingPoliciesOf (slice ranked 0 10) checks)))
      | _ \<Rightarrow> [])"

subsection \<open>\<^verbatim>\<open>processQuestionsInParallel\<close>\<close>

definition initialStats :: "nat \<Rightarrow> processing_stats" where
  "initialStats n =
     \<lparr>totalQuestions = n, questionsProcessed = 0, totalPoliciesChecked = 0, evidenceFound = 0,
      compliantAnswers = 0, nonCompliantAnswers = 0, cacheHits = 0, downloadTime = 0,
      analysisTime = 0\<rparr>"

text \<open>
  \<^verbatim>\<open>batch.map(question => this.processQuestionParallel(...))\<close>: the tasks of a batch,
  all working on the one stats object. A task is suspended only at an \<^verbatim>\<open>await\<close>, its
  updates of the stats are additions, and its result does not depend on the stats,
  so the tasks are run one after the other.
\<close>

fun runBatchTasks ::
  "(question \<times> question_env) list \<Rightarrow> processing_stats
     \<Rightarrow> (error + evidence_candidate list) list \<times> processing_stats" where
  "runBatchTasks [] st = ([], st)"
| "runBatchTasks (qe # rest) st =
     (let task = processQuestionParallel (snd qe) (fst qe) st;
          others = runBatchTasks rest (snd task)
      in (fst task # fst others, snd others))"

text \<open>
  \<^verbatim>\<open>evidenceByQuestion\<close> is a plain object, created as \<^verbatim>\<open>{}\<close> and written by assignment
  only: \<open>properties\<close> are its own properties, and \<open>proto\<close> is the value that an
  assignment has installed as its prototype (\<open>None\<close>: it is still \<^verbatim>\<open>Object.prototype\<close>).
\<close>

record 'v js_object =
  properties :: "string \<rightharpoonup> 'v"
  proto :: "'v option"

definition emptyObject :: "'v js_object" where
  "emptyObject = \<lparr>properties = Map.empty, proto = None\<rparr>"

text \<open>
  \<^verbatim>\<open>evidenceByQuestion[question.id] = value\<close>, where \<open>value\<close> is an array. The assignment
  creates or replaces the own property of that key, except for the key \<^verbatim>\<open>__proto__\<close>:
  there it reaches the setter inherited from \<^verbatim>\<open>Object.prototype\<close>, which makes the array
  the prototype of the object and creates no own property. Every other key inherited
  from \<^verbatim>\<open>Object.prototype\<close> (or, later, from such an array) is a writable data property,
  which an assignment shadows by an own property.
\<close>

definition storeEvidence ::
  "question \<Rightarrow> evidence_candidate list \<Rightarrow> evidence_candidate list js_object
     \<Rightarrow> evidence_candidate list js_object" where
  "storeEvidence question value evidenceByQuestion =
     (if q_id question = ''__proto__''
      then evidenceByQuestion\<lparr>proto := Some value\<rparr>
      else evidenceByQuestion\<lparr>properties := (properties evidenceByQuestion)(q_id question \<mapsto> value)\<rparr>)"

text \<open>The callback of \<^verbatim>\<open>batchResults.forEach((result, index) => ...)\<close>.\<close>

definition collectQuestionResult ::
  "question \<Rightarrow> (error, evidence_candidate list) settled
     \<Rightarrow> evidence_candidate list js_object \<times> processing_stats
     \<Rightarrow> evidence_candidate list js_object \<times> processing_stats" where
  "collectQuestionResult question result acc =
     (case acc of (evidenceByQuestion, st) \<Rightarrow>
        (case result of
           Fulfilled value \<Rightarrow>
             (storeEvidence question value evidenceByQuestion,
              st\<lparr>questionsProcessed := questionsProcessed st + 1\<rparr>)
         | Rejected reason \<Rightarrow>
             (storeEvidence question [] evidenceByQuestion,
              st\<lparr>questionsProcessed := questionsProcessed st + 1\<rparr>)))"

text \<open>One turn of the loop over the question batches.\<close>

definition processQuestionBatch ::
  "(question \<times> question_env) list
     \<Rightarrow> evidence_candidate list js_object \<times> processing_stats
     \<Rightarrow> evidence_candidate list js_object \<times> processing_stats" where
  "processQuestionBatch batch acc =
     (let tasks = runBatchTasks batch (snd acc);
          batchResults = allSettled (fst tasks)
      in foldl (\<lambda>acc' (question, result). collectQuestionResult question result acc')
               (fst acc, snd tasks) (zip (map fst batch) batchResults))"

text \<open>
  \<^verbatim>\<open>processQuestionsInParallel(questions, policyIndex)\<close>. \<open>world i\<close> holds the outcomes met
  by the task of the \<open>i\<close>-th question. The function has no failing branch: what a
  task throws arrives as a \<open>Rejected\<close> entry of \<open>allSettled\<close>. The pause of 1000 ms
  between two batches is left out.
\<close>

definition processQuestionsInParallel ::
  "(nat \<Rightarrow> question_env) \<Rightarrow> question list
     \<Rightarrow> evidence_candidate list js_object \<times> processing_stats" where
  "processQuestionsInParallel world questions =
     (let processingStats = initialStats (length questions);
          questionBatches = createBatches (zip questions (map world [0..<length questions])) 3
      in foldl (\<lambda>acc batch. processQuestionBatch batch acc)
               (emptyObject, processingStats) questionBatches)"

text \<open>The relation between the counters that the stats keep.\<close>

definition stats_inv :: "processing_stats \<Rightarrow> bool" where
  "stats_inv st \<longleftrightarrow>
     compliantAnswers st + nonCompliantAnswers st \<le> evidenceFound st
     \<and> evidenceFound st \<le> totalPoliciesChecked st"

subsection \<open>A small run, used to exercise the functions above\<close>

definition example_policy :: "string \<Rightarrow> int \<Rightarrow> scored_policy" where
  "example_policy name score =
     \<lparr>p_subfolder = ''AA'', p_pdf_name = name, p_category = ''Privacy & Security'',
      p_keywords = [''privacy''], p_short_description = ''privacy policy'', p_score = score\<rparr>"

definition example_candidate :: "string \<Rightarrow> string \<Rightarrow> string \<Rightarrow> int \<Rightarrow> evidence_candidate" where
  "example_candidate name confidence answer score =
     \<lparr>c_docName = name, c_subfolder = ''AA'', c_answer = JsString answer, c_evidence = ''quote'',
      c_pageReference = '''', c_confidence = JsString confidence, c_explanation = ''because'',
      c_score = score\<rparr>"

definition example_question :: "string \<Rightarrow> question" where
  "example_question key =
     \<lparr>q_id = key, q_text = ''Does the P&P state the privacy rule?'', q_category = ''Privacy & Security'',
      q_keywords = [''privacy''], q_description = ''privacy rule'', q_requiresEvidence = True\<rparr>"

text \<open>
  Seven relevant policies, the third one absent from the store, so that six exist and
  make two batches; the text of the fifth existing one could not be downloaded and the
  analysis of the sixth is rejected; the analyses of the first four are fulfilled with
  evidence.
\<close>

definition example_env :: question_env where
  "example_env =
     \<lparr>relevantPolicies = Inr [example_policy ''a.pdf'' 90, example_policy ''b.pdf'' 50,
                              example_policy ''x.pdf'' 45, example_policy ''c.pdf'' 50,
                              example_policy ''d.pdf'' 40, example_policy ''e.pdf'' 10,
                              example_policy ''f.pdf'' 5],
      policyChecks = Inr [True, True, False, True, True, True, True],
      policyContents = [Some ''text a'', Some ''text b'', Some ''text c'', Some ''text d'', None,
                        Some ''text f''],
      analysisOutcome = (\<lambda>g.
         if g = 0 then Fulfilled (Some (example_candidate ''a.pdf'' ''low'' ''yes'' 90))
         else if g = 1 then Fulfilled (Some (example_candidate ''b.pdf'' ''high'' ''no'' 50))
         else if g = 2 then Fulfilled (Some (example_candidate ''c.pdf'' ''high'' ''no'' 50))
         else if g = 3 then Fulfilled (Some (example_candidate ''d.pdf'' ''high'' ''yes'' 40))
         else Rejected (OtherError ''Cannot read properties of undefined'')),
      downloadMs = 120,
      analysisMs = (\<lambda>b. 800)\<rparr>"

text \<open>A task that fails: the existence check rejects.\<close>

definition failing_env :: question_env where
  "failing_env = example_env\<lparr>policyChecks := Inl (ApiError 500 ''Failed to initialize Google Drive API'')\<rparr>"

section \<open>ContentStore: \<^verbatim>\<open>OptimizedDriveService\<close> and \<^verbatim>\<open>OptimizedPolicyService\<close>\<close>

text \<open>
  The Drive client is taken as initialised (\<^verbatim>\<open>ensureInitialized\<close> returns); what a
  remote call answers is an input of each function.
\<close>

subsection \<open>\<^verbatim>\<open>batchFindPolicyFiles\<close>\<close>

text \<open>A file of a folder listing, and a request \<^verbatim>\<open>{policyName, subfolderId}\<close>.\<close>

record drive_file =
  f_id :: string
  f_name :: string

record policy_request =
  policyName :: string
  subfolderId :: string

text \<open>\<^verbatim>\<open>s.split('.')[0]\<close>: the part of \<open>s\<close> before its first dot, all of \<open>s\<close> without a dot.\<close>

definition before_first_dot :: "string \<Rightarrow> string" where
  "before_first_dot s = (case split_on CHR ''.'' s of [] \<Rightarrow> [] | piece # rest \<Rightarrow> piece)"

text \<open>The predicate given to \<^verbatim>\<open>allFiles.find\<close>.\<close>

definition fileMatches :: "(string \<Rightarrow> string) \<Rightarrow> policy_request \<Rightarrow> drive_file \<Rightarrow> bool" where
  "fileMatches lc req file \<longleftrightarrow>
     str_includes (lc (f_name file)) (lc (policyName req))
     \<or> str_includes (lc (policyName req)) (before_first_dot (lc (f_name file)))"

text \<open>The key \<^verbatim>\<open>`${req.subfolderId}_${req.policyName}`\<close> of the result map.\<close>

definition resultKey :: "policy_request \<Rightarrow> string" where
  "resultKey req = subfolderId req @ ''_'' @ policyName req"

text \<open>
  \<^verbatim>\<open>requestsByFolder\<close>: a \<^verbatim>\<open>Map\<close> from folder id to the requests of that folder, in
  the order in which the folders first appear.
\<close>

definition addRequest ::
  "(string \<times> policy_request list) list \<Rightarrow> policy_request \<Rightarrow> (string \<times> policy_request list) list" where
  "addRequest requestsByFolder req =
     (if subfolderId req \<in> fst ` set requestsByFolder
      then map (\<lambda>(folder, requests).
                  (folder, if folder = subfolderId req then requests @ [req] else requests))
               requestsByFolder
      else requestsByFolder @ [(subfolderId req, [req])])"

definition groupByFolder :: "policy_request list \<Rightarrow> (string \<times> policy_request list) list" where
  "groupByFolder policyRequests = foldl addRequest [] policyRequests"

text \<open>
  \<^verbatim>\<open>results.set(key, matchingFile || null)\<close>; the value \<open>None\<close> stored under a key is
  \<^verbatim>\<open>null\<close>.
\<close>

definition setResult ::
  "policy_request \<Rightarrow> drive_file option \<Rightarrow> (string \<rightharpoonup> drive_file option)
     \<Rightarrow> (string \<rightharpoonup> drive_file option)" where
  "setResult req file results = results(resultKey req \<mapsto> file)"

text \<open>
  The task of one folder: the listing, then the match of every request of the folder
  against it; \<^verbatim>\<open>null\<close> for all of them when the listing fails (the \<^verbatim>\<open>catch\<close>).
\<close>

definition processFolder ::
  "(string \<Rightarrow> string) \<Rightarrow> (string \<Rightarrow> error + drive_file list)
     \<Rightarrow> string \<times> policy_request list \<Rightarrow> (string \<rightharpoonup> drive_file option)
     \<Rightarrow> (string \<rightharpoonup> drive_file option)" where
  "processFolder lc listPDFFiles folderRequests results =
     (case folderRequests of (folder, requests) \<Rightarrow>
        (case listPDFFiles folder of
           Inr allFiles \<Rightarrow>
             foldl (\<lambda>res req. setResult req (find (fileMatches lc req) allFiles) res) results requests
         | Inl err \<Rightarrow>
             foldl (\<lambda>res req. setResult req None res) results requests))"

text \<open>
  \<^verbatim>\<open>batchFindPolicyFiles(policyRequests)\<close>. The folder tasks are started in the order of
  the folders; each stops at the \<^verbatim>\<open>await\<close> of its listing and, when the listing arrives
  (or fails), writes its results in one uninterrupted step. So the tasks write in the
  order in which their listings arrive: \<open>arrival folder\<close> is the time at which the listing
  of \<open>folder\<close> settles, and tasks whose listings settle together write in the order of
  the folders. The order matters only when two requests of different folders have the
  same result key, the later write replacing the earlier.
\<close>

definition batchFindPolicyFiles ::
  "(string \<Rightarrow> string) \<Rightarrow> (string \<Rightarrow> error + drive_file list) \<Rightarrow> (string \<Rightarrow> nat)
     \<Rightarrow> policy_request list \<Rightarrow> (string \<rightharpoonup> drive_file option)" where
  "batchFindPolicyFiles lc listPDFFiles arrival policyRequests =
     foldl (\<lambda>results folderRequests. processFolder lc listPDFFiles folderRequests results)
           Map.empty
           (sort_key (\<lambda>folderRequests. arrival (fst folderRequests)) (groupByFolder policyRequests))"

text \<open>
  \<^verbatim>\<open>findPolicyFileOptimized(policyName, subfolderId)\<close>: a batch of one request, hence of
  one folder task, whose time of arrival does not matter; \<open>None\<close> is \<^verbatim>\<open>null\<close> (or the
  \<^verbatim>\<open>undefined\<close> of a missing key).
\<close>

definition findPolicyFileOptimized ::
  "(string \<Rightarrow> string) \<Rightarrow> (string \<Rightarrow> error + drive_file list) \<Rightarrow> string \<Rightarrow> string
     \<Rightarrow> drive_file option" where
  "findPolicyFileOptimized lc listPDFFiles name folder =
     (let request = \<lparr>policyName = name, subfolderId = folder\<rparr>;
          results = batchFindPolicyFiles lc listPDFFiles (\<lambda>f. 0) [request]
      in case results (folder @ ''_'' @ name) of None \<Rightarrow> None | Some file \<Rightarrow> file)"

subsection \<open>The match of \<^verbatim>\<open>preloadPolicyMetadata\<close>\<close>

text \<open>
  \<^verbatim>\<open>s.replace(pattern, replacement)\<close> for a string pattern: the first occurrence of the
  pattern is replaced (the replacement is taken literally; the one used below is empty).
\<close>

fun replace_first :: "string \<Rightarrow> string \<Rightarrow> string \<Rightarrow> string" where
  "replace_first pattern replacement [] = (if pattern = [] then replacement else [])"
| "replace_first pattern replacement (c # cs) =
     (if take (length pattern) (c # cs) = pattern
      then replacement @ drop (length pattern) (c # cs)
      else c # replace_first pattern replacement cs)"

text \<open>
  The predicate that \<^verbatim>\<open>preloadPolicyMetadata\<close> gives to \<^verbatim>\<open>folderFiles.find\<close> when it resolves
  the policies of the index against the same listings: here \<^verbatim>\<open>.pdf\<close> is taken off the
  name of the policy before it is looked for in the listed name.
\<close>

definition preloadFileMatches :: "(string \<Rightarrow> string) \<Rightarrow> string \<Rightarrow> drive_file \<Rightarrow> bool" where
  "preloadFileMatches lc pdf_name file \<longleftrightarrow>
     (let fileName = lc (f_name file);
          policyName = lc pdf_name
      in str_includes fileName (replace_first ''.pdf'' '''' policyName)
         \<or> str_includes policyName (replace_first ''.pdf'' '''' fileName))"

text \<open>
  The match as the specification words it: the name of the descriptor without its
  extension and the listed name, one containing the other, case ignored.
\<close>

definition without_extension :: "string \<Rightarrow> string" where
  "without_extension s =
     (if CHR ''.'' \<in> set s then rev (tl (dropWhile (\<lambda>c. c \<noteq> CHR ''.'') (rev s))) else s)"

definition matches_as_specified :: "(string \<Rightarrow> string) \<Rightarrow> policy_request \<Rightarrow> drive_file \<Rightarrow> bool" where
  "matches_as_specified lc req file \<longleftrightarrow>
     str_includes (lc (f_name file)) (lc (without_extension (policyName req)))
     \<or> str_includes (lc (without_extension (policyName req))) (lc (f_name file))"

text \<open>Two folders of the store, used to exercise the resolution.\<close>

definition example_listing :: "string \<Rightarrow> error + drive_file list" where
  "example_listing folder =
     (if folder = ''folder-privacy''
      then Inr [\<lparr>f_id = ''id-1'', f_name = ''Privacy Policy.pdf''\<rparr>,
                \<lparr>f_id = ''id-2'', f_name = ''Data Retention.pdf''\<rparr>]
      else if folder = ''folder-hr''
      then Inr [\<lparr>f_id = ''id-3'', f_name = ''HR Policy.pdf''\<rparr>]
      else Inl (ApiError 500 ''Failed to list PDF files''))"

subsection \<open>The caches\<close>

text \<open>
  Every cache of the services is a JavaScript \<^verbatim>\<open>Map\<close>; where the source wants an entry
  to expire it calls \<^verbatim>\<open>setTimeout(() => map.delete(key), ms)\<close> after the \<^verbatim>\<open>set\<close>. A cache
  is the map together with its pending timers, each a due time and the key it will
  delete. Times are clock readings in milliseconds. With every value the map keeps
  the time of the \<^verbatim>\<open>set\<close> that stored it: the source keeps no such time, it is
  there to say how old an entry is.
\<close>

record ('k, 'v) js_cache =
  entries :: "'k \<rightharpoonup> 'v \<times> nat"
  timers :: "(nat \<times> 'k) list"


definition cache_has :: "'k \<Rightarrow> ('k, 'v) js_cache \<Rightarrow> bool" where
  "cache_has k c \<longleftrightarrow> entries c k \<noteq> None"







subsubsection \<open>The caches that schedule a deletion\<close>







text \<open>\<^verbatim>\<open>getFileMetadataWithCache\<close> on \<^verbatim>\<open>metadataCache\<close>.\<close>

record file_metadata =
  m_id :: string
  m_name :: string
  m_size :: nat
  m_mimeType :: string
  m_modifiedTime :: string



subsubsection \<open>The caches that schedule nothing\<close>




chapter \<open>Verification\<close>

section \<open>General lemmas\<close>

lemma foldl_upt_Suc: "k \<le> n \<Longrightarrow> foldl f a [k..<Suc n] = f (foldl f a [k..<n]) n"
  by simp

lemma foldl_bonus:
  "foldl (\<lambda>s x. if P x then s + c else s) (s0::int) xs = s0 + c * int (length (filter P xs))"
  by (induction xs arbitrary: s0) (simp_all add: algebra_simps)

section \<open>RelevanceRanker\<close>

subsection \<open>The matrix loops compute the recurrence\<close>

lemma lev_init_rows_eq: "lev_init_rows n i = (if i \<le> n then [0 \<mapsto> i] else Map.empty)"
proof (induction n)
  case 0
  show ?case by (simp add: lev_init_rows_def js_new_row_def)
next
  case (Suc n)
  have "lev_init_rows (Suc n) = js_new_row (lev_init_rows n) (Suc n) (Suc n)"
    unfolding lev_init_rows_def by (rule foldl_upt_Suc) simp
  then show ?case
    using Suc.IH by (auto simp: js_new_row_def le_Suc_eq)
qed

lemma lev_init_row0_eq:
  "lev_init_row0 n m i j = (if i = 0 \<and> j \<le> n then Some j else m i j)"
proof (induction n)
  case 0
  show ?case by (simp add: lev_init_row0_def js_set_cell_def)
next
  case (Suc n)
  have "lev_init_row0 (Suc n) m = js_set_cell (lev_init_row0 n m) 0 (Suc n) (Some (Suc n))"
    unfolding lev_init_row0_def by (rule foldl_upt_Suc) simp
  then show ?case
    using Suc.IH by (auto simp: js_set_cell_def le_Suc_eq)
qed

lemma lev_cell_eq:
  assumes "i < length str2" "j < length str1"
    and "m i j = Some (lev_rec str2 str1 i j)"
    and "m (Suc i) j = Some (lev_rec str2 str1 (Suc i) j)"
    and "m i (Suc j) = Some (lev_rec str2 str1 i (Suc j))"
  shows "lev_cell str1 str2 m (Suc i) (Suc j) = Some (lev_rec str2 str1 (Suc i) (Suc j))"
  using assms by (simp add: lev_cell_def charAt_def js_min3_def js_plus1_def)

text \<open>
  Invariant of the inner loop for row \<open>i + 1\<close>: after the cells \<open>1..J\<close> are written,
  the row holds the recurrence up to column \<open>J\<close> and no other row has changed.
\<close>

lemma lev_fill_row_aux:
  assumes prev: "\<forall>j\<le>length str1. m0 i j = Some (lev_rec str2 str1 i j)"
    and col0: "m0 (Suc i) 0 = Some (Suc i)"
    and i: "i < length str2"
    and F: "\<And>J. F J = foldl (\<lambda>m j. js_set_cell m (Suc i) j (lev_cell str1 str2 m (Suc i) j)) m0 [1..<Suc J]"
    and J: "J \<le> length str1"
  shows "(\<forall>j\<le>J. F J (Suc i) j = Some (lev_rec str2 str1 (Suc i) j))
       \<and> (\<forall>k. k \<noteq> Suc i \<longrightarrow> F J k = m0 k)"
  using J
proof (induction J)
  case 0
  show ?case using col0 by (simp add: F)
next
  case (Suc J)
  from Suc have IH1: "\<forall>j\<le>J. F J (Suc i) j = Some (lev_rec str2 str1 (Suc i) j)"
    and IH2: "\<forall>k. k \<noteq> Suc i \<longrightarrow> F J k = m0 k" by simp_all
  have unfold: "F (Suc J) = js_set_cell (F J) (Suc i) (Suc J) (lev_cell str1 str2 (F J) (Suc i) (Suc J))"
    unfolding F by (rule foldl_upt_Suc) simp
  have Jlt: "J < length str1" using Suc.prems by simp
  have a: "F J i J = Some (lev_rec str2 str1 i J)"
    using IH2 prev Jlt by simp
  have b: "F J (Suc i) J = Some (lev_rec str2 str1 (Suc i) J)"
    using IH1 by simp
  have c: "F J i (Suc J) = Some (lev_rec str2 str1 i (Suc J))"
    using IH2 prev Suc.prems by simp
  have cell: "lev_cell str1 str2 (F J) (Suc i) (Suc J) = Some (lev_rec str2 str1 (Suc i) (Suc J))"
    by (rule lev_cell_eq [OF i Jlt a b c])
  show ?case
  proof (intro conjI allI impI)
    fix j assume "j \<le> Suc J"
    then show "F (Suc J) (Suc i) j = Some (lev_rec str2 str1 (Suc i) j)"
      unfolding unfold cell using IH1 by (cases "j = Suc J") (simp_all add: js_set_cell_def)
  next
    fix k assume "k \<noteq> Suc i"
    then show "F (Suc J) k = m0 k"
      unfolding unfold using IH2 by (simp add: js_set_cell_def)
  qed
qed

lemma lev_fill_row_eq:
  assumes "\<forall>j\<le>length str1. m0 i j = Some (lev_rec str2 str1 i j)"
    and "m0 (Suc i) 0 = Some (Suc i)"
    and "i < length str2"
  shows "\<forall>j\<le>length str1. lev_fill_row str1 str2 m0 (Suc i) (Suc i) j = Some (lev_rec str2 str1 (Suc i) j)"
    and "\<forall>k. k \<noteq> Suc i \<longrightarrow> lev_fill_row str1 str2 m0 (Suc i) k = m0 k"
  using lev_fill_row_aux [OF assms refl order_refl] unfolding lev_fill_row_def by blast+

text \<open>Invariant of the outer loop: rows \<open>0..I\<close> are complete, the later rows untouched.\<close>

lemma lev_fill_aux:
  assumes row0: "\<forall>j\<le>length str1. m0 0 j = Some j"
    and col0: "\<forall>i\<le>length str2. m0 i 0 = Some i"
    and G: "\<And>I. G I = foldl (lev_fill_row str1 str2) m0 [1..<Suc I]"
    and I: "I \<le> length str2"
  shows "(\<forall>i\<le>I. \<forall>j\<le>length str1. G I i j = Some (lev_rec str2 str1 i j))
       \<and> (\<forall>k>I. G I k = m0 k)"
  using I
proof (induction I)
  case 0
  show ?case using row0 by (simp add: G)
next
  case (Suc I)
  from Suc have IH1: "\<forall>i\<le>I. \<forall>j\<le>length str1. G I i j = Some (lev_rec str2 str1 i j)"
    and IH2: "\<forall>k>I. G I k = m0 k" by simp_all
  have unfold: "G (Suc I) = lev_fill_row str1 str2 (G I) (Suc I)"
    unfolding G by (rule foldl_upt_Suc) simp
  have p: "\<forall>j\<le>length str1. G I I j = Some (lev_rec str2 str1 I j)"
    using IH1 by simp
  have c: "G I (Suc I) 0 = Some (Suc I)"
    using IH2 col0 Suc.prems by simp
  have Ilt: "I < length str2" using Suc.prems by simp
  note row = lev_fill_row_eq [OF p c Ilt]
  show ?case
  proof (intro conjI allI impI)
    fix i j assume "i \<le> Suc I" "j \<le> length str1"
    then show "G (Suc I) i j = Some (lev_rec str2 str1 i j)"
      unfolding unfold using row IH1 by (cases "i = Suc I") simp_all
  next
    fix k assume "Suc I < k"
    then show "G (Suc I) k = m0 k"
      unfolding unfold using row(2) IH2 by simp
  qed
qed

lemma levenshteinDistance_eq:
  "levenshteinDistance str1 str2 = Some (levenshtein str2 str1)"
proof -
  let ?m0 = "lev_init_row0 (length str1) (lev_init_rows (length str2))"
  have r: "\<forall>j\<le>length str1. ?m0 0 j = Some j"
    by (simp add: lev_init_row0_eq)
  have c: "\<forall>i\<le>length str2. ?m0 i 0 = Some i"
    by (simp add: lev_init_row0_eq lev_init_rows_eq)
  from lev_fill_aux [OF r c refl order_refl] show ?thesis
    unfolding levenshteinDistance_def lev_fill_def levenshtein_def by simp
qed

lemma lev_rec_sym: "lev_rec a b i j = lev_rec b a j i"
proof (induction a b i j rule: lev_rec.induct)
  case (1 a b j)
  show ?case by (cases j) simp_all
next
  case (2 a b i)
  show ?case by simp
next
  case (3 a b i j)
  then show ?case by (auto simp: min.commute min.left_commute)
qed

lemma levenshtein_sym: "levenshtein a b = levenshtein b a"
  by (simp add: levenshtein_def lev_rec_sym [of a b])

text \<open>
  The recurrence read on the strings themselves: the distance to the empty string is
  the length, and two non-empty strings are compared by their last units. The value
  at \<open>(i, j)\<close> depends on the first \<open>i\<close> and \<open>j\<close> units only.
\<close>

lemma lev_rec_prefix:
  "i \<le> length a \<Longrightarrow> j \<le> length b \<Longrightarrow> lev_rec (a @ a') (b @ b') i j = lev_rec a b i j"
proof (induction a b i j rule: lev_rec.induct)
  case (1 a b j)
  show ?case by simp
next
  case (2 a b i)
  show ?case by simp
next
  case (3 a b i j)
  from 3(5,6) have "i < length a" "j < length b" by simp_all
  then have n: "(a @ a') ! i = a ! i" "(b @ b') ! j = b ! j" by (simp_all add: nth_append)
  show ?case
  proof (cases "a ! i = b ! j")
    case True
    with 3(1) 3(5,6) n show ?thesis by simp
  next
    case False
    with 3(2,3,4) 3(5,6) n show ?thesis by simp
  qed
qed

lemma levenshtein_Nil: "levenshtein [] b = length b" "levenshtein a [] = length a"
  by (simp_all add: levenshtein_def lev_rec_sym [of a "[]"])

lemma levenshtein_snoc:
  "levenshtein (a @ [x]) (b @ [y])
   = (if x = y then levenshtein a b
      else 1 + min (levenshtein a b) (min (levenshtein (a @ [x]) b) (levenshtein a (b @ [y]))))"
proof -
  have p1: "lev_rec (a @ [x]) (b @ [y]) (length a) (length b) = lev_rec a b (length a) (length b)"
    by (rule lev_rec_prefix) simp_all
  have p2: "lev_rec (a @ [x]) (b @ [y]) (Suc (length a)) (length b)
            = lev_rec (a @ [x]) b (Suc (length a)) (length b)"
    using lev_rec_prefix [of "Suc (length a)" "a @ [x]" "length b" b "[]" "[y]"] by simp
  have p3: "lev_rec (a @ [x]) (b @ [y]) (length a) (Suc (length b))
            = lev_rec a (b @ [y]) (length a) (Suc (length b))"
    using lev_rec_prefix [of "length a" a "Suc (length b)" "b @ [y]" "[x]" "[]"] by simp
  have step: "lev_rec (a @ [x]) (b @ [y]) (Suc (length a)) (Suc (length b))
              = (if x = y then lev_rec (a @ [x]) (b @ [y]) (length a) (length b)
                 else 1 + min (lev_rec (a @ [x]) (b @ [y]) (length a) (length b))
                             (min (lev_rec (a @ [x]) (b @ [y]) (Suc (length a)) (length b))
                                  (lev_rec (a @ [x]) (b @ [y]) (length a) (Suc (length b)))))"
    by simp
  have "levenshtein (a @ [x]) (b @ [y])
        = lev_rec (a @ [x]) (b @ [y]) (Suc (length a)) (Suc (length b))"
    by (simp add: levenshtein_def)
  also note step
  finally show ?thesis
    unfolding p1 p2 p3 by (simp only: levenshtein_def length_append_singleton)
qed

lemmas lev_eval_defs =
  levenshteinDistance_def lev_fill_def lev_fill_row_def lev_cell_def lev_init_row0_def
  lev_init_rows_def charAt_def js_min3_def js_plus1_def js_set_cell_def js_new_row_def upt_rec

text \<open>
  C3. For every pair of non-empty strings, \<^verbatim>\<open>fuzzyMatch\<close> answers true exactly when
  \<open>(L - d) / L \<ge> 0.7\<close>, where \<open>L\<close> is the length of the longer string and \<open>d\<close> the
  edit distance of the two strings given by the classic dynamic-programming
  recurrence: the matrix code computes that recurrence, the recurrence is symmetric in
  the two strings, and the comparison is not strict.
\<close>

theorem fuzzyMatch_iff_similarity:
  assumes "str1 \<noteq> []" and "str2 \<noteq> []"
  shows "fuzzyMatch str1 str2 \<longleftrightarrow>
           (real (max (length str1) (length str2)) - real (levenshtein str1 str2))
             / real (max (length str1) (length str2)) \<ge> 7 / 10"
proof (cases "length str1 > length str2")
  case True
  then have "max (length str1) (length str2) = length str1" by simp
  with True assms show ?thesis
    by (simp add: fuzzyMatch_def fuzzyMatch3_def levenshteinDistance_eq levenshtein_sym [of str2 str1])
next
  case False
  then have "max (length str1) (length str2) = length str2" by simp
  with False assms show ?thesis
    by (simp add: fuzzyMatch_def fuzzyMatch3_def levenshteinDistance_eq)
qed

text \<open>
  The boundary: \<^verbatim>\<open>abcdefg\<close> and \<^verbatim>\<open>abcdefghij\<close> are at distance 3 with \<open>L = 10\<close>,
  similarity exactly \<open>0.7\<close>, and match; \<^verbatim>\<open>abcdef\<close> and \<^verbatim>\<open>abcdefghij\<close> are at distance 4,
  similarity \<open>0.6\<close>, and do not.
\<close>

theorem fuzzyMatch_iff_similarity_witness:
  "''abcdefg'' \<noteq> [] \<and> ''abcdefghij'' \<noteq> [] \<and> ''abcdef'' \<noteq> []
   \<and> levenshtein ''abcdefg'' ''abcdefghij'' = 3 \<and> fuzzyMatch ''abcdefg'' ''abcdefghij''
   \<and> levenshtein ''abcdef'' ''abcdefghij'' = 4 \<and> \<not> fuzzyMatch ''abcdef'' ''abcdefghij''"
proof -
  have "levenshteinDistance ''abcdefghij'' ''abcdefg'' = Some 3"
    by (simp add: lev_eval_defs)
  then have d3: "levenshtein ''abcdefg'' ''abcdefghij'' = 3"
    by (simp add: levenshteinDistance_eq)
  have "levenshteinDistance ''abcdefghij'' ''abcdef'' = Some 4"
    by (simp add: lev_eval_defs)
  then have d4: "levenshtein ''abcdef'' ''abcdefghij'' = 4"
    by (simp add: levenshteinDistance_eq)
  have m3: "fuzzyMatch ''abcdefg'' ''abcdefghij''"
    using fuzzyMatch_iff_similarity [of "''abcdefg''" "''abcdefghij''"] d3 by simp
  have m4: "\<not> fuzzyMatch ''abcdef'' ''abcdefghij''"
    using fuzzyMatch_iff_similarity [of "''abcdef''" "''abcdefghij''"] d4 by simp
  from d3 d4 m3 m4 show ?thesis by simp
qed

subsection \<open>The score of the privacy/security example\<close>

lemma fuzzyMatch_privacy_privacy: "fuzzyMatch ''privacy'' ''privacy''"
  by (simp add: fuzzyMatch_def fuzzyMatch3_def lev_eval_defs)

lemma fuzzyMatch_secur_security: "\<not> fuzzyMatch ''secur'' ''security''"
  by (simp add: fuzzyMatch_def fuzzyMatch3_def lev_eval_defs)

lemma fuzzyMatch_secur_privacy: "\<not> fuzzyMatch ''secur'' ''privacy''"
  by (simp add: fuzzyMatch_def fuzzyMatch3_def lev_eval_defs)

lemma fuzzyMatch_privacy_security: "\<not> fuzzyMatch ''privacy'' ''security''"
  by (simp add: fuzzyMatch_def fuzzyMatch3_def lev_eval_defs)

lemma pair_privacy_privacy: "keywordPairScore ''privacy'' ''privacy'' s = s + 65"
  by (simp add: keywordPairScore_def fuzzyMatch_privacy_privacy)

lemma pair_privacy_secur: "keywordPairScore ''privacy'' ''secur'' s = s"
  by (simp add: keywordPairScore_def fuzzyMatch_secur_privacy)

lemma pair_security_privacy: "keywordPairScore ''security'' ''privacy'' s = s"
  by (simp add: keywordPairScore_def fuzzyMatch_privacy_security)

lemma pair_security_secur: "keywordPairScore ''security'' ''secur'' s = s + 20"
  by (simp add: keywordPairScore_def fuzzyMatch_secur_security)

lemmas pair_scores =
  pair_privacy_privacy pair_privacy_secur pair_security_privacy pair_security_secur

text \<open>
  C2 (amended). For a question with keywords \<^verbatim>\<open>privacy\<close>, \<^verbatim>\<open>security\<close> and a policy of
  the same category with keywords \<^verbatim>\<open>privacy\<close>, \<^verbatim>\<open>secur\<close>, the score is
  \<open>50 + (20 + 30 + 15) + 20 = 135\<close> plus the description, name and text
  bonuses: the fuzzy bonus of 15 fires for the pair of equal keywords (similarity 1)
  on top of the 30 and the 20, and for no other pair (\<^verbatim>\<open>security\<close> and \<^verbatim>\<open>secur\<close> are at
  distance 3, similarity 0.625).
\<close>

theorem calculateRelevanceScore_privacy_security:
  "calculateRelevanceScore
     \<lparr>nq_keywords = [''privacy'', ''security''], nq_category = c, nq_text = t, nq_description = qd\<rparr>
     \<lparr>np_keywords = [''privacy'', ''secur''], np_category = c, np_description = d, np_name = n\<rparr>
   = 135
     + 10 * int (length (filter (\<lambda>k. str_includes d k) [''privacy'', ''security'']))
     + 5 * int (length (filter (\<lambda>k. str_includes d k \<or> str_includes n k) [''privacy'', ''security'']))
     + 3 * int (length (filter (\<lambda>w. str_includes d w)
                         (filter (\<lambda>w. length w > 3) (split_on CHR '' '' t))))"
  unfolding calculateRelevanceScore_def Let_def foldl_bonus
  by (simp add: pair_scores)

text \<open>
  With an empty description, name and text no description, name or text bonus
  applies, and the score is 135, not 120.
\<close>

theorem calculateRelevanceScore_privacy_security_counterexample:
  "calculateRelevanceScore
     \<lparr>nq_keywords = [''privacy'', ''security''], nq_category = ''Privacy & Security'',
      nq_text = '''', nq_description = ''''\<rparr>
     \<lparr>np_keywords = [''privacy'', ''secur''], np_category = ''Privacy & Security'',
      np_description = '''', np_name = ''''\<rparr> = 135
   \<and> calculateRelevanceScore
     \<lparr>nq_keywords = [''privacy'', ''security''], nq_category = ''Privacy & Security'',
      nq_text = '''', nq_description = ''''\<rparr>
     \<lparr>np_keywords = [''privacy'', ''secur''], np_category = ''Privacy & Security'',
      np_description = '''', np_name = ''''\<rparr> \<noteq> 120"
  unfolding calculateRelevanceScore_def Let_def foldl_bonus
  by (simp add: pair_scores)

section \<open>ReasoningDispatcher\<close>

subsection \<open>Retries of \<^verbatim>\<open>makeGeminiRequest\<close>\<close>











subsection \<open>The adaptive delay controller\<close>




subsection \<open>The keyword search finds every occurrence\<close>

lemma find_from_None:
  "keyword \<noteq> [] \<Longrightarrow> find_from s keyword pos = None \<Longrightarrow>
   \<forall>i<length s. take (length keyword) (drop i s) \<noteq> keyword"
proof (induction s arbitrary: pos)
  case Nil
  then show ?case by simp
next
  case (Cons c cs)
  from Cons.prems have no: "take (length keyword) (c # cs) \<noteq> keyword"
    and rest: "find_from cs keyword (Suc pos) = None"
    by (auto split: if_splits)
  from Cons.IH [OF Cons.prems(1) rest] no show ?case
    by (auto simp: less_Suc_eq_0_disj)
qed

lemma find_from_Some:
  "keyword \<noteq> [] \<Longrightarrow> find_from s keyword pos = Some r \<Longrightarrow>
   pos \<le> r \<and> r - pos < length s \<and> take (length keyword) (drop (r - pos) s) = keyword
   \<and> (\<forall>i<r - pos. take (length keyword) (drop i s) \<noteq> keyword)"
proof (induction s arbitrary: pos)
  case Nil
  then show ?case by simp
next
  case (Cons c cs)
  show ?case
  proof (cases "take (length keyword) (c # cs) = keyword")
    case True
    with Cons.prems show ?thesis by simp
  next
    case False
    with Cons.prems have rest: "find_from cs keyword (Suc pos) = Some r" by simp
    from Cons.IH [OF Cons.prems(1) rest]
    have a: "Suc pos \<le> r" and b: "r - Suc pos < length cs"
      and c: "take (length keyword) (drop (r - Suc pos) cs) = keyword"
      and d: "\<forall>i<r - Suc pos. take (length keyword) (drop i cs) \<noteq> keyword"
      by simp_all
    from a have eq: "r - pos = Suc (r - Suc pos)" by simp
    show ?thesis
      unfolding eq using a b c d False by (auto simp: less_Suc_eq_0_disj)
  qed
qed

lemma indexOf_none:
  assumes "keyword \<noteq> []" "from \<le> length text" "indexOf text keyword from = - 1"
  shows "filter (\<lambda>p. take (length keyword) (drop p text) = keyword) [from..<length text] = []"
proof -
  from assms have "find_from (drop from text) keyword from = None"
    by (auto simp: indexOf_def min_def split: option.splits)
  from find_from_None [OF assms(1) this]
  have no: "\<And>i. i < length text - from \<Longrightarrow> take (length keyword) (drop i (drop from text)) \<noteq> keyword"
    by simp
  have "\<forall>p\<in>set [from..<length text]. take (length keyword) (drop p text) \<noteq> keyword"
  proof
    fix p assume "p \<in> set [from..<length text]"
    then have p: "from \<le> p" "p < length text" by simp_all
    then have "p - from < length text - from" by simp
    from no [OF this] have "take (length keyword) (drop ((p - from) + from) text) \<noteq> keyword"
      unfolding drop_drop .
    with p(1) show "take (length keyword) (drop p text) \<noteq> keyword" by simp
  qed
  then show ?thesis by (simp add: filter_empty_conv)
qed

lemma indexOf_found:
  assumes "keyword \<noteq> []" "from \<le> length text" "indexOf text keyword from \<noteq> - 1"
  shows "\<exists>r. indexOf text keyword from = int r \<and> from \<le> r \<and> r < length text
           \<and> filter (\<lambda>p. take (length keyword) (drop p text) = keyword) [from..<length text]
              = r # filter (\<lambda>p. take (length keyword) (drop p text) = keyword) [Suc r..<length text]"
proof -
  let ?P = "\<lambda>p. take (length keyword) (drop p text) = keyword"
  from assms obtain r where r: "find_from (drop from text) keyword from = Some r"
    and ix: "indexOf text keyword from = int r"
    by (auto simp: indexOf_def min_def split: option.splits)
  note h = find_from_Some [OF assms(1) r]
  from h have a: "from \<le> r" by (rule conjunct1)
  from h have b: "r - from < length (drop from text)" by blast
  from h have c: "take (length keyword) (drop (r - from) (drop from text)) = keyword" by blast
  from h have d: "\<And>i. i < r - from \<Longrightarrow> take (length keyword) (drop i (drop from text)) \<noteq> keyword"
    by blast
  from a b have rlt: "r < length text" by simp
  from c have "take (length keyword) (drop ((r - from) + from) text) = keyword"
    unfolding drop_drop .
  with a have Pr: "?P r" by simp
  have "\<forall>p\<in>set [from..<r]. \<not> ?P p"
  proof
    fix p assume "p \<in> set [from..<r]"
    then have p: "from \<le> p" "p - from < r - from" by auto
    from d [OF p(2)] have "take (length keyword) (drop ((p - from) + from) text) \<noteq> keyword"
      unfolding drop_drop .
    with p(1) show "\<not> ?P p" by simp
  qed
  then have before: "filter ?P [from..<r] = []" by (simp add: filter_empty_conv)
  have "[from..<r + (length text - r)] = [from..<r] @ [r..<r + (length text - r)]"
    using a by (rule upt_add_eq_append)
  with rlt have s1: "[from..<length text] = [from..<r] @ [r..<length text]" by simp
  have s2: "[r..<length text] = r # [Suc r..<length text]"
    using rlt by (rule upt_conv_Cons)
  have "filter ?P [from..<length text] = r # filter ?P [Suc r..<length text]"
    unfolding s1 s2 using before Pr by simp
  with ix a rlt show ?thesis by blast
qed

text \<open>
  The loop, entered with the result of a search from \<open>from\<close>, ends and appends the
  occurrences at or after \<open>from\<close>: by induction on the distance to the end of the text.
\<close>

lemma findKeywordPositions_loop_eq:
  assumes "keyword \<noteq> []" "from \<le> length text"
  shows "findKeywordPositions_loop text keyword (indexOf text keyword from) acc
         = Some (acc @ filter (\<lambda>p. take (length keyword) (drop p text) = keyword) [from..<length text])"
  using assms(2)
proof (induction "length text - from" arbitrary: "from" acc rule: less_induct)
  case less
  let ?P = "\<lambda>p. take (length keyword) (drop p text) = keyword"
  show ?case
  proof (cases "indexOf text keyword from = - 1")
    case True
    from indexOf_none [OF assms(1) less.prems True] True show ?thesis
      by (subst findKeywordPositions_loop.simps) simp
  next
    case False
    from indexOf_found [OF assms(1) less.prems False]
    obtain r where ix: "indexOf text keyword from = int r" and r: "from \<le> r" "r < length text"
      and f: "filter ?P [from..<length text] = r # filter ?P [Suc r..<length text]"
      by blast
    have "findKeywordPositions_loop text keyword (indexOf text keyword from) acc
          = findKeywordPositions_loop text keyword (indexOf text keyword (Suc r)) (acc @ [r])"
      using ix by (subst findKeywordPositions_loop.simps) simp
    also have "\<dots> = Some ((acc @ [r]) @ filter ?P [Suc r..<length text])"
      using r by (intro less.hyps) simp_all
    finally show ?thesis using f by simp
  qed
qed

lemma findKeywordPositions_eq:
  "keyword \<noteq> [] \<Longrightarrow> findKeywordPositions text keyword = Some (occurrences text keyword)"
  using findKeywordPositions_loop_eq [of keyword 0 "text" "[]"]
  by (simp add: findKeywordPositions_def occurrences_def)

lemma collectKeywordPositions_acc:
  assumes "\<forall>k\<in>set keywords. lc k \<noteq> []"
  shows "foldl (\<lambda>acc keyword.
              case acc of None \<Rightarrow> None
              | Some keywordPositions \<Rightarrow>
                  (case findKeywordPositions (lc text) (lc keyword) of None \<Rightarrow> None
                   | Some positions \<Rightarrow> Some (keywordPositions @ positions)))
           (Some acc) keywords
         = Some (acc @ concat (map (\<lambda>k. occurrences (lc text) (lc k)) keywords))"
  using assms
  by (induction "keywords" arbitrary: acc) (simp_all add: findKeywordPositions_eq)

lemma collectKeywordPositions_eq:
  "\<forall>k\<in>set keywords. lc k \<noteq> [] \<Longrightarrow>
   collectKeywordPositions lc text keywords
     = Some (concat (map (\<lambda>k. occurrences (lc text) (lc k)) keywords))"
  unfolding collectKeywordPositions_def using collectKeywordPositions_acc [of "keywords" lc "text" "[]"]
  by simp

lemma smartTruncatePolicyText_eq:
  assumes "\<forall>k\<in>set keywords. lc k \<noteq> []"
  shows "smartTruncatePolicyText lc text keywords =
     Some (if length text \<le> 18000 then text
           else (let positions = sort (concat (map (\<lambda>k. occurrences (lc text) (lc k)) keywords));
                     windows = map (\<lambda>p. substring text (p - 500) (min (length text) (p + 1500))) positions;
                     combined = join section_separator windows
                 in if positions \<noteq> [] \<and> length combined \<le> 18000 then combined
                    else take 18000 text @ truncation_marker))"
proof (cases "length text \<le> 18000")
  case True
  then show ?thesis by (simp add: smartTruncatePolicyText_def)
next
  case False
  define ps where "ps = concat (map (\<lambda>k. occurrences (lc text) (lc k)) keywords)"
  have nat_sub: "\<And>p::nat. nat (max 0 (int p - 500)) = p - 500" by simp
  have sub0: "substring text 0 18000 = take 18000 text"
    using False by (simp add: substring_def)
  have sorted_ne: "(sort ps \<noteq> []) = (ps \<noteq> [])"
    by (metis length_sort length_0_conv)
  have c: "collectKeywordPositions lc text keywords = Some ps"
    unfolding ps_def by (rule collectKeywordPositions_eq [OF assms])
  show ?thesis
    unfolding smartTruncatePolicyText_def c ps_def [symmetric]
    using False sorted_ne by (simp add: Let_def nat_sub sub0 del: max_0L)
qed

lemma findKeywordPositions_loop_empty_keyword:
  assumes "0 \<le> index"
  shows "findKeywordPositions_loop text [] index acc = None"
proof -
  have never: "kw = [] \<longrightarrow> 0 \<le> ix \<longrightarrow> False"
    if "findKeywordPositions_loop doc kw ix ps = Some y"
    for doc kw :: "'a list" and ix ps y
    using that
  proof (rule findKeywordPositions_loop.raw_induct
           [where P = "\<lambda>doc kw ix ps y. kw = [] \<longrightarrow> 0 \<le> ix \<longrightarrow> False", rotated])
    fix loop :: "'a list \<Rightarrow> 'a list \<Rightarrow> int \<Rightarrow> nat list \<Rightarrow> nat list option"
    fix doc' kw' :: "'a list" and ix' :: int and ps' y' :: "nat list"
    assume IH: "\<And>d k i p z. loop d k i p = Some z \<Longrightarrow> k = [] \<longrightarrow> 0 \<le> i \<longrightarrow> False"
    assume body: "(if ix' \<noteq> - 1
            then loop doc' kw' (indexOf doc' kw' (nat ix' + 1)) (ps' @ [nat ix'])
            else Some ps') = Some y'"
    show "kw' = [] \<longrightarrow> 0 \<le> ix' \<longrightarrow> False"
    proof (intro impI)
      assume e: "kw' = []" and nn: "0 \<le> ix'"
      from nn have "ix' \<noteq> - 1" by simp
      with body have call: "loop doc' kw' (indexOf doc' kw' (nat ix' + 1)) (ps' @ [nat ix']) = Some y'"
        by simp
      have "0 \<le> indexOf doc' kw' (nat ix' + 1)"
        unfolding e indexOf_def Let_def
        by (cases "drop (min (nat ix' + 1) (length doc')) doc'") simp_all
      with IH [OF call] e show False by simp
    qed
  qed
  show ?thesis
  proof (cases "findKeywordPositions_loop text [] index acc")
    case None
    then show ?thesis .
  next
    case (Some y)
    from never [OF Some] assms show ?thesis by simp
  qed
qed

lemma findKeywordPositions_empty_keyword: "findKeywordPositions doc [] = None"
  unfolding findKeywordPositions_def
  by (rule findKeywordPositions_loop_empty_keyword) (cases doc, simp_all add: indexOf_def)


lemma collect_None:
  "foldl (\<lambda>acc keyword.
              case acc of None \<Rightarrow> None
              | Some keywordPositions \<Rightarrow>
                  (case findKeywordPositions (lc doc) (lc keyword) of None \<Rightarrow> None
                   | Some positions \<Rightarrow> Some (keywordPositions @ positions)))
           None kws = None"
  by (induction kws) simp_all

lemma collectKeywordPositions_empty_keyword:
  assumes "\<exists>k\<in>set kws. lc k = []"
  shows "foldl (\<lambda>acc keyword.
              case acc of None \<Rightarrow> None
              | Some keywordPositions \<Rightarrow>
                  (case findKeywordPositions (lc doc) (lc keyword) of None \<Rightarrow> None
                   | Some positions \<Rightarrow> Some (keywordPositions @ positions)))
           acc kws = None"
  using assms
proof (induction kws arbitrary: acc)
  case Nil
  then show ?case by simp
next
  case (Cons k ks)
  show ?case
  proof (cases "lc k = []")
    case True
    then show ?thesis
      by (cases acc) (simp_all add: collect_None findKeywordPositions_empty_keyword)
  next
    case False
    with Cons.prems have "\<exists>k\<in>set ks. lc k = []" by simp
    from Cons.IH [OF this] show ?thesis by simp
  qed
qed

text \<open>
  A keyword that is empty once lower-cased makes the search loop run forever, so on a
  text above the budget the function does not return.
\<close>

lemma smartTruncatePolicyText_empty_keyword:
  "length doc > 18000 \<Longrightarrow> \<exists>k\<in>set kws. lc k = [] \<Longrightarrow> smartTruncatePolicyText lc doc kws = None"
  unfolding smartTruncatePolicyText_def collectKeywordPositions_def
  by (simp add: collectKeywordPositions_empty_keyword)

text \<open>
  C7 (amended). A text of at most 18,000 units is returned unchanged, whatever the
  keywords are. For a longer text, and keywords none of which is empty once
  lower-cased, the function returns: it takes every position at which a lower-cased
  keyword occurs in the lower-cased text, for all keywords together, in ascending order
  and without removing repeated positions; cuts one window \<open>[p - 500, p + 1500)\<close>,
  clamped to the text, per position; and joins all the windows, repeated and
  overlapping ones included, with the separator \<^verbatim>\<open>\n...\n\<close>. If there is at least one
  position and the joined text has at most 18,000 units it is the result; otherwise the
  result is the first 18,000 units followed by \<^verbatim>\<open>...[truncated]\<close>.
\<close>

theorem smartTruncatePolicyText_windows:
  "(length text \<le> 18000 \<longrightarrow> smartTruncatePolicyText lc text keywords = Some text)
   \<and> (18000 < length text \<and> (\<forall>k\<in>set keywords. lc k \<noteq> []) \<longrightarrow>
        smartTruncatePolicyText lc text keywords =
          Some (let positions = sort (concat (map (\<lambda>k. occurrences (lc text) (lc k)) keywords));
                    windows = map (\<lambda>p. substring text (p - 500) (min (length text) (p + 1500))) positions;
                    combined = join section_separator windows
                in if positions \<noteq> [] \<and> length combined \<le> 18000 then combined
                   else take 18000 text @ truncation_marker))"
proof (intro conjI impI)
  assume "length text \<le> 18000"
  then show "smartTruncatePolicyText lc text keywords = Some text"
    by (simp add: smartTruncatePolicyText_def)
next
  assume a: "18000 < length text \<and> (\<forall>k\<in>set keywords. lc k \<noteq> [])"
  then have "\<forall>k\<in>set keywords. lc k \<noteq> []" and "\<not> length text \<le> 18000" by simp_all
  from smartTruncatePolicyText_eq [OF this(1), of "text"] this(2)
  show "smartTruncatePolicyText lc text keywords =
          Some (let positions = sort (concat (map (\<lambda>k. occurrences (lc text) (lc k)) keywords));
                    windows = map (\<lambda>p. substring text (p - 500) (min (length text) (p + 1500))) positions;
                    combined = join section_separator windows
                in if positions \<noteq> [] \<and> length combined \<le> 18000 then combined
                   else take 18000 text @ truncation_marker)"
    by simp
qed

lemma occurrences_only_head:
  assumes "a \<noteq> k" and "take (length kw) (k # replicate n a) = kw" and "kw \<noteq> []"
  shows "occurrences (k # replicate n a) kw = [0]"
proof -
  let ?P = "\<lambda>p. take (length kw) (drop p (k # replicate n a)) = kw"
  from assms(2,3) obtain kw' where kw: "kw = k # kw'" by (cases kw) auto
  have "\<forall>p\<in>set [Suc 0..<Suc n]. \<not> ?P p"
  proof
    fix p assume "p \<in> set [Suc 0..<Suc n]"
    then have "Suc 0 \<le> p" "p < Suc n" by (simp_all only: set_upt atLeastLessThan_iff)
    then obtain q where p: "p = Suc q" "q < n" by (cases p) auto
    then obtain m where m: "n - q = Suc m" by (cases "n - q") auto
    have "drop p (k # replicate n a) = a # replicate m a"
      using p m by simp
    then show "\<not> ?P p" using kw assms(1) by simp
  qed
  then have "filter ?P [Suc 0..<Suc n] = []" by (simp add: filter_empty_conv)
  moreover have "[0..<Suc n] = 0 # [Suc 0..<Suc n]" by (simp add: upt_conv_Cons)
  ultimately show ?thesis using assms(2) by (simp add: occurrences_def)
qed

lemma toLowerCase_k_a:
  "toLowerCase (CHR ''k'' # replicate n CHR ''a'') = CHR ''k'' # replicate n CHR ''a''"
  by (simp add: toLowerCase_def lower_unit_def)

lemma occurrences_k:
  "occurrences (CHR ''k'' # replicate 18000 CHR ''a'') ''k'' = [0]"
  by (rule occurrences_only_head) simp_all

lemma occurrences_ka:
  "occurrences (CHR ''k'' # replicate 18000 CHR ''a'') ''ka'' = [0]"
  by (rule occurrences_only_head) simp_all

text \<open>
  A short text with an empty keyword is returned as it is. A text of 18,001 units,
  \<^verbatim>\<open>k\<close> followed by 18,000 \<^verbatim>\<open>a\<close>, with the keyword \<^verbatim>\<open>k\<close>: one occurrence, at 0, and the
  result is the window \<open>[0, 1500)\<close>.
\<close>

theorem smartTruncatePolicyText_windows_witness:
  "length ''privacy rule'' \<le> 18000
   \<and> smartTruncatePolicyText toLowerCase ''privacy rule'' [''''] = Some ''privacy rule''
   \<and> 18000 < length (CHR ''k'' # replicate 18000 CHR ''a'')
   \<and> toLowerCase ''k'' \<noteq> []
   \<and> smartTruncatePolicyText toLowerCase (CHR ''k'' # replicate 18000 CHR ''a'') [''k'']
       = Some (CHR ''k'' # replicate 1499 CHR ''a'')"
proof -
  have lk: "toLowerCase ''k'' = ''k''"
    by (simp add: toLowerCase_def lower_unit_def)
  show ?thesis
    using smartTruncatePolicyText_windows [of "''privacy rule''" toLowerCase "['''']"]
      smartTruncatePolicyText_windows [of "CHR ''k'' # replicate 18000 CHR ''a''" toLowerCase "[''k'']"]
    by (simp add: toLowerCase_k_a lk occurrences_k substring_def section_separator_def)
qed

text \<open>
  The same text with the keywords \<^verbatim>\<open>k\<close> and \<^verbatim>\<open>ka\<close>: both occur at 0, and the one window
  \<open>[0, 1500)\<close> is in the result twice, the separator between the two copies. The
  concatenation of the unique windows would be the window once.
\<close>

theorem smartTruncatePolicyText_windows_counterexample:
  "smartTruncatePolicyText toLowerCase (CHR ''k'' # replicate 18000 CHR ''a'') [''k'', ''ka'']
     = Some ((CHR ''k'' # replicate 1499 CHR ''a'') @ section_separator
             @ (CHR ''k'' # replicate 1499 CHR ''a''))
   \<and> smartTruncatePolicyText toLowerCase (CHR ''k'' # replicate 18000 CHR ''a'') [''k'', ''ka'']
     \<noteq> Some (concat (remdups [CHR ''k'' # replicate 1499 CHR ''a'',
                                 CHR ''k'' # replicate 1499 CHR ''a'']))"
proof -
  have h: "\<forall>k\<in>set [''k'', ''ka'']. toLowerCase k \<noteq> []"
    by (simp add: toLowerCase_def)
  have lk: "toLowerCase ''k'' = ''k''" "toLowerCase ''ka'' = ''ka''"
    by (simp_all add: toLowerCase_def lower_unit_def)
  have "smartTruncatePolicyText toLowerCase (CHR ''k'' # replicate 18000 CHR ''a'') [''k'', ''ka'']
     = Some ((CHR ''k'' # replicate 1499 CHR ''a'') @ section_separator
             @ (CHR ''k'' # replicate 1499 CHR ''a''))"
    using smartTruncatePolicyText_eq [OF h, of "CHR ''k'' # replicate 18000 CHR ''a''"]
    by (simp add: toLowerCase_k_a lk occurrences_k occurrences_ka substring_def section_separator_def)
  then show ?thesis
    by (simp add: section_separator_def)
qed

section \<open>BatchOrchestrator\<close>

subsection \<open>The sort of the candidates\<close>

subsubsection \<open>The comparator and the order of the ranks\<close>

lemma compareCandidates_well_formed:
  assumes "well_formed_candidate a" "well_formed_candidate b"
  shows "sortCompare compareCandidates a b \<le> 0 \<longleftrightarrow> ranked_before a b"
proof -
  from assms obtain ca cb aa ab where o:
    "confidenceOrder (propertyKey (c_confidence a)) = Some ca"
    "confidenceOrder (propertyKey (c_confidence b)) = Some cb"
    "answerOrder (propertyKey (c_answer a)) = Some aa"
    "answerOrder (propertyKey (c_answer b)) = Some ab"
    by (auto simp: well_formed_candidate_def confidenceOrder_def answerOrder_def)
  then show ?thesis
    by (auto simp: sortCompare_def compareCandidates_def ranked_before_def confidenceRank_def
        answerRank_def Let_def)
qed







subsubsection \<open>The binary search\<close>

declare binarySearch.simps [simp del]

lemma binarySearch_bounds:
  "left \<le> right \<Longrightarrow> left \<le> binarySearch order a pivot left right \<and> binarySearch order a pivot left right \<le> right"
proof (induction order a pivot left right rule: binarySearch.induct)
  case (1 order workArray pivot left right)
  show ?case
  proof (cases "left < right")
    case False
    with 1 show ?thesis by (subst binarySearch.simps, subst (2) binarySearch.simps) simp
  next
    case True
    define mid where "mid = left + (right - left) div 2"
    have m: "left \<le> mid" "mid < right" using True by (simp_all add: mid_def)
    show ?thesis
    proof (cases "order pivot (workArray ! mid) < 0")
      case neg: True
      from "1.IH"(1) [OF True mid_def neg] m
      have "left \<le> binarySearch order workArray pivot left mid \<and> binarySearch order workArray pivot left mid \<le> mid"
        by simp
      moreover have "binarySearch order workArray pivot left right = binarySearch order workArray pivot left mid"
        using True neg by (subst binarySearch.simps) (simp add: mid_def Let_def)
      ultimately show ?thesis using m by simp
    next
      case nonneg: False
      from "1.IH"(2) [OF True mid_def nonneg] m
      have "mid + 1 \<le> binarySearch order workArray pivot (mid + 1) right \<and> binarySearch order workArray pivot (mid + 1) right \<le> right"
        by simp
      moreover have "binarySearch order workArray pivot left right = binarySearch order workArray pivot (mid + 1) right"
        using True nonneg by (subst binarySearch.simps) (simp add: mid_def Let_def)
      ultimately show ?thesis using m by simp
    qed
  qed
qed


subsubsection \<open>The run at the start\<close>

lemma run_extent_le: "run_extent order d prev rest \<le> length rest"
  by (induction rest arbitrary: prev) auto




lemma countAndMakeRun_general:
  "fst (countAndMakeRun order a) \<le> length a
   \<and> length (snd (countAndMakeRun order a)) = length a
   \<and> set (snd (countAndMakeRun order a)) = set a
   \<and> (2 \<le> length a \<longrightarrow> 2 \<le> fst (countAndMakeRun order a))"
proof (cases a)
  case Nil
  then show ?thesis by (simp add: countAndMakeRun_def)
next
  case (Cons x a')
  show ?thesis
  proof (cases a')
    case Nil
    with Cons show ?thesis by (simp add: countAndMakeRun_def)
  next
    case c2: (Cons y rest)
    define d where "d = (order y x < 0)"
    define r where "r = 2 + run_extent order d y rest"
    have rl: "r \<le> length a" using run_extent_le [of order d y rest] Cons c2 by (simp add: r_def)
    have e: "countAndMakeRun order a = (r, if d then rev (take r a) @ drop r a else a)"
      unfolding countAndMakeRun_def Cons c2 by (simp add: Let_def d_def r_def)
    have "set (rev (take r a) @ drop r a) = set (take r a) \<union> set (drop r a)" by simp
    also have "\<dots> = set (take r a @ drop r a)" by (simp only: set_append)
    also have "\<dots> = set a" by (simp only: append_take_drop_id)
    finally have m: "set (rev (take r a) @ drop r a) = set a" .
    have l: "length (rev (take r a) @ drop r a) = length a" using rl by simp
    have r2: "2 \<le> r" by (simp add: r_def)
    show ?thesis
    proof (cases d)
      case True
      with e have e': "countAndMakeRun order a = (r, rev (take r a) @ drop r a)" by simp
      show ?thesis unfolding e' fst_conv snd_conv using rl m l r2 by blast
    next
      case False
      with e have e': "countAndMakeRun order a = (r, a)" by simp
      show ?thesis unfolding e' fst_conv snd_conv using rl r2 by blast
    qed
  qed
qed


subsubsection \<open>The insertion of one element\<close>

text \<open>A turn of the loop seen from the sorted part \<open>pre\<close> below \<open>start\<close>.\<close>

lemma insertPivot_parts:
  assumes "start < length a"
  shows "insertPivot order a start
         = take (binarySearch order a (a ! start) 0 start) (take start a) @ a ! start
             # drop (binarySearch order a (a ! start) 0 start) (take start a) @ drop (Suc start) a"
proof -
  define left where "left = binarySearch order a (a ! start) 0 start"
  have "left \<le> start"
    unfolding left_def using binarySearch_bounds [of 0 start order a "a ! start"] by simp
  then have t: "take left (take start a) = take left a" by (simp add: min_absorb1)
  have d: "drop left (take start a) = take (start - left) (drop left a)" by (rule drop_take)
  show ?thesis
    unfolding insertPivot_def Let_def left_def [symmetric] t d ..
qed

lemma array_parts:
  assumes "start < length a"
  shows "a = take left (take start a) @ drop left (take start a) @ a ! start # drop (Suc start) a"
proof -
  have "a = take start a @ a ! start # drop (Suc start) a"
    by (rule id_take_nth_drop [OF assms])
  also have "take start a = take left (take start a) @ drop left (take start a)"
    by (simp only: append_take_drop_id)
  finally show ?thesis by (simp only: append_assoc)
qed

lemma insertPivot_general:
  assumes "start < length a"
  shows "length (insertPivot order a start) = length a \<and> set (insertPivot order a start) = set a"
proof -
  define p where "p = a ! start"
  define left where "left = binarySearch order a p 0 start"
  define L where "L = take left (take start a)"
  define R where "R = drop left (take start a)"
  define rest where "rest = drop (Suc start) a"
  have i: "insertPivot order a start = L @ p # R @ rest"
    unfolding L_def R_def rest_def left_def p_def by (rule insertPivot_parts [OF assms])
  have arr: "L @ R @ p # rest = a"
    unfolding L_def R_def rest_def p_def by (rule array_parts [OF assms, symmetric])
  have "length (L @ p # R @ rest) = length (L @ R @ p # rest)" by simp
  then have l: "length (insertPivot order a start) = length a"
    unfolding i arr .
  have "set (L @ p # R @ rest) = set (L @ R @ p # rest)" by auto
  then have s: "set (insertPivot order a start) = set a"
    unfolding i arr .
  from l s show ?thesis ..
qed


subsubsection \<open>The insertion loop and the sort\<close>

lemma binaryInsertion_general:
  "s \<le> length a \<Longrightarrow>
   length (foldl (insertPivot order) a [s..<length a]) = length a
   \<and> set (foldl (insertPivot order) a [s..<length a]) = set a"
proof (induction "length a - s" arbitrary: a s)
  case 0
  then have e: "[s..<length a] = []" by simp
  show ?case unfolding e by simp
next
  case (Suc d)
  then have st: "s < length a" by simp
  define a' where "a' = insertPivot order a s"
  from insertPivot_general [OF st, of order]
  have l: "length a' = length a" and m: "set a' = set a" by (simp_all add: a'_def)
  have u: "[s..<length a] = s # [Suc s..<length a']" using st l by (simp add: upt_conv_Cons)
  have d: "d = length a' - Suc s" using Suc.hyps(2) l by simp
  have le: "Suc s \<le> length a'" using st l by simp
  from Suc.hyps(1) [OF d le]
  have "length (foldl (insertPivot order) a' [Suc s..<length a']) = length a'
      \<and> set (foldl (insertPivot order) a' [Suc s..<length a']) = set a'" .
  then show ?case unfolding u foldl_Cons a'_def [symmetric] l m .
qed


lemma js_sort_unfold:
  assumes "\<not> length xs < 2"
  shows "js_sort comparefn xs
         = (let r = fst (countAndMakeRun (sortCompare comparefn) xs);
                w = snd (countAndMakeRun (sortCompare comparefn) xs)
            in if r < length w then foldl (insertPivot (sortCompare comparefn)) w [r..<length w] else w)"
proof -
  let ?ord = "sortCompare comparefn"
  obtain r w where c: "countAndMakeRun ?ord xs = (r, w)" by (cases "countAndMakeRun ?ord xs")
  from countAndMakeRun_general [of ?ord xs] assms
  have lw: "length w = length xs" and r2: "2 \<le> r"
    unfolding c by simp_all
  from r2 have r0: "r \<noteq> 0" by simp
  show ?thesis
    using assms r0 by (simp add: js_sort_def binaryInsertionSort_def c lw Let_def)
qed

lemma js_sort_general: "length (js_sort comparefn xs) = length xs \<and> set (js_sort comparefn xs) = set xs"
proof (cases "length xs < 2")
  case True
  then show ?thesis by (simp add: js_sort_def)
next
  case False
  let ?ord = "sortCompare comparefn"
  define r where "r = fst (countAndMakeRun ?ord xs)"
  define w where "w = snd (countAndMakeRun ?ord xs)"
  from countAndMakeRun_general [of ?ord xs]
  have rl: "r \<le> length xs" and lw: "length w = length xs" and sw: "set w = set xs"
    unfolding r_def w_def by simp_all
  have e: "js_sort comparefn xs
           = (if r < length w then foldl (insertPivot ?ord) w [r..<length w] else w)"
    unfolding r_def w_def using js_sort_unfold [OF False, of comparefn] by (simp add: Let_def)
  have rw: "r \<le> length w" using rl lw by simp
  from binaryInsertion_general [OF rw, of ?ord]
  have "length (foldl (insertPivot ?ord) w [r..<length w]) = length xs
      \<and> set (foldl (insertPivot ?ord) w [r..<length w]) = set xs"
    unfolding lw sw .
  then show ?thesis unfolding e using lw sw by simp
qed


subsection \<open>Batches\<close>

declare createBatches_from.simps [simp del]

lemma concat_createBatches_from:
  "0 < n \<Longrightarrow> concat (createBatches_from i xs n) = drop i xs"
proof (induction i xs n rule: createBatches_from.induct)
  case (1 i array batchSize)
  show ?case
  proof (cases "i < length array")
    case True
    have "take batchSize (drop i array) @ drop (i + batchSize) array = drop i array"
      by (metis add.commute append_take_drop_id drop_drop)
    with True 1 show ?thesis
      by (subst createBatches_from.simps) (simp add: slice_def)
  next
    case False
    then show ?thesis
      by (subst createBatches_from.simps) simp
  qed
qed

lemma concat_createBatches: "0 < n \<Longrightarrow> concat (createBatches xs n) = xs"
  by (simp add: createBatches_def concat_createBatches_from)

subsection \<open>One question\<close>

text \<open>What the loop over the settled analyses does to the candidates and to the counters.\<close>

lemma recordPolicyResult_candidates:
  "fst (recordPolicyResult r acc)
   = fst acc @ (case r of Fulfilled (Some value) \<Rightarrow> [value] | _ \<Rightarrow> [])"
  by (cases acc; cases r rule: settled.exhaust)
     (auto simp: recordPolicyResult_def split: option.splits)

lemma recordPolicyResult_inv:
  "stats_inv (snd acc) \<Longrightarrow> stats_inv (snd (recordPolicyResult r acc))"
  by (cases acc; cases r)
     (auto simp: recordPolicyResult_def stats_inv_def Let_def split: option.splits)

lemma recordPolicyResult_processed:
  "questionsProcessed (snd (recordPolicyResult r acc)) = questionsProcessed (snd acc)"
  by (cases acc; cases r)
     (auto simp: recordPolicyResult_def Let_def split: option.splits)

lemma foldl_record_candidates:
  "fst (foldl (\<lambda>acc' result. recordPolicyResult result acc') acc rs)
   = fst acc @ concat (map (\<lambda>r. case r of Fulfilled (Some value) \<Rightarrow> [value] | _ \<Rightarrow> []) rs)"
  by (induction rs arbitrary: acc) (simp_all add: recordPolicyResult_candidates)

lemma foldl_record_inv:
  "stats_inv (snd acc) \<Longrightarrow>
   stats_inv (snd (foldl (\<lambda>acc' result. recordPolicyResult result acc') acc rs))"
  by (induction rs arbitrary: acc) (simp_all add: recordPolicyResult_inv)

lemma foldl_record_processed:
  "questionsProcessed (snd (foldl (\<lambda>acc' result. recordPolicyResult result acc') acc rs))
   = questionsProcessed (snd acc)"
  by (induction rs arbitrary: acc) (simp_all add: recordPolicyResult_processed)

lemma processPolicyBatches_candidates:
  "fst (processPolicyBatches env b batches acc)
   = fst acc @ concat (map (\<lambda>ip. case policyPromise env ip of
                                    Fulfilled (Some value) \<Rightarrow> [value] | _ \<Rightarrow> [])
                           (concat batches))"
  by (induction batches arbitrary: b acc)
     (simp_all add: Let_def foldl_record_candidates map_concat comp_def)

lemma processPolicyBatches_inv:
  "stats_inv (snd acc) \<Longrightarrow> stats_inv (snd (processPolicyBatches env b batches acc))"
proof (induction batches arbitrary: b acc)
  case Nil
  then show ?case by simp
next
  case (Cons batch rest)
  have "stats_inv (addAnalysisTime (analysisMs env b) (snd acc))"
    using Cons.prems by (simp add: addAnalysisTime_def stats_inv_def)
  then show ?case
    by (simp add: Let_def Cons.IH foldl_record_inv)
qed

lemma processPolicyBatches_processed:
  "questionsProcessed (snd (processPolicyBatches env b batches acc)) = questionsProcessed (snd acc)"
  by (induction batches arbitrary: b acc)
     (simp_all add: Let_def foldl_record_processed addAnalysisTime_def)

lemma js_sort_Nil: "js_sort f [] = []"
  by (simp add: js_sort_def)

text \<open>The value of the promise: independent of the stats the task starts from.\<close>

lemma processQuestionParallel_result:
  "fst (processQuestionParallel env q st)
   = (case relevantPolicies env of
        Inl err \<Rightarrow> Inl err
      | Inr ranked \<Rightarrow>
          (case policyChecks env of
             Inl err \<Rightarrow> if slice ranked 0 10 = [] then Inr [] else Inl err
           | Inr checks \<Rightarrow> Inr (js_sort compareCandidates (encounteredCandidates env))))"
proof (cases "relevantPolicies env")
  case (Inl err)
  then show ?thesis by (simp add: processQuestionParallel_def)
next
  case (Inr ranked)
  show ?thesis
  proof (cases "policyChecks env")
    case (Inl err)
    with Inr show ?thesis by (simp add: processQuestionParallel_def Let_def)
  next
    case checks: (Inr checks)
    have e: "slice ranked 0 10 = [] \<Longrightarrow> existingPoliciesOf (slice ranked 0 10) checks = []"
      by (simp add: existingPoliciesOf_def enumerate_eq_zip)
    show ?thesis
      using Inr checks e
      by (auto simp: processQuestionParallel_def encounteredCandidates_def Let_def js_sort_Nil
          processPolicyBatches_candidates concat_createBatches)
  qed
qed

lemma processQuestionParallel_independent:
  "fst (processQuestionParallel env q st) = fst (processQuestionParallel env q st')"
  by (simp add: processQuestionParallel_result)

lemma processQuestionParallel_inv:
  "stats_inv st \<Longrightarrow> stats_inv (snd (processQuestionParallel env q st))"
proof -
  assume inv: "stats_inv st"
  then have "stats_inv (addDownloadTime (downloadMs env) st)"
    by (simp add: addDownloadTime_def stats_inv_def)
  then have "stats_inv (snd (processPolicyBatches env b batches ([], addDownloadTime (downloadMs env) st)))"
    for b batches
    by (intro processPolicyBatches_inv) simp
  with inv show ?thesis
    by (simp add: processQuestionParallel_def Let_def split: sum.splits)
qed

lemma processQuestionParallel_processed:
  "questionsProcessed (snd (processQuestionParallel env q st)) = questionsProcessed st"
  by (simp add: processQuestionParallel_def Let_def processPolicyBatches_processed addDownloadTime_def
      split: sum.splits)

text \<open>
  The candidates a call returns are the candidates the loop met, sorted, or none; and
  there are at most 10 of them, one per relevant policy at most, so that the sort is
  within the lengths it is modelled for.
\<close>

lemma processQuestionParallel_candidates:
  assumes "fst (processQuestionParallel env q st) = Inr candidates"
  shows "candidates = js_sort compareCandidates (encounteredCandidates env)
       \<or> (candidates = [] \<and> encounteredCandidates env = [])"
  using assms unfolding processQuestionParallel_result
  by (auto simp: encounteredCandidates_def existingPoliciesOf_def enumerate_eq_zip
      split: sum.splits if_splits)

lemma length_concat_at_most_one:
  "(\<And>x. length (f x) \<le> 1) \<Longrightarrow> length (concat (map f xs)) \<le> length xs"
proof (induction xs)
  case Nil
  show ?case by simp
next
  case (Cons x xs)
  from Cons.prems [of x] Cons.IH [OF Cons.prems] show ?case by simp
qed

lemma length_encounteredCandidates: "length (encounteredCandidates env) \<le> 10"
proof (cases "relevantPolicies env")
  case (Inl err)
  then show ?thesis by (simp add: encounteredCandidates_def)
next
  case (Inr ranked)
  show ?thesis
  proof (cases "policyChecks env")
    case (Inl err)
    with Inr show ?thesis by (simp add: encounteredCandidates_def)
  next
    case checks: (Inr checks)
    let ?f = "\<lambda>ip. case policyPromise env ip of Fulfilled (Some value) \<Rightarrow> [value] | _ \<Rightarrow> []"
    have one: "length (?f ip) \<le> 1" for ip
      by (cases "policyPromise env ip" rule: settled.exhaust) (simp_all split: option.splits)
    have "length (concat (map ?f (enumerate 0 (existingPoliciesOf (slice ranked 0 10) checks))))
          \<le> length (enumerate 0 (existingPoliciesOf (slice ranked 0 10) checks))"
      by (rule length_concat_at_most_one [of ?f, OF one])
    also have "\<dots> = length (existingPoliciesOf (slice ranked 0 10) checks)" by simp
    also have "\<dots> \<le> length (enumerate 0 (slice ranked 0 10))"
      unfolding existingPoliciesOf_def length_map by (rule length_filter_le)
    also have "\<dots> \<le> 10" by (simp add: slice_def)
    finally show ?thesis using Inr checks by (simp add: encounteredCandidates_def)
  qed
qed

lemma processQuestionParallel_at_most_10:
  assumes "fst (processQuestionParallel env q st) = Inr candidates"
  shows "length candidates \<le> 10"
  using processQuestionParallel_candidates [OF assms] length_encounteredCandidates [of env]
    js_sort_general [of compareCandidates "encounteredCandidates env"]
  by auto


lemma createBatches_from_unfold:
  "i < length xs \<Longrightarrow> 0 < n \<Longrightarrow>
   createBatches_from i xs n = slice xs i (i + n) # createBatches_from (i + n) xs n"
  "\<not> i < length xs \<Longrightarrow> createBatches_from i xs n = []"
  by (subst createBatches_from.simps, simp)+

lemmas process_eval =
  processQuestionParallel_def existingPoliciesOf_def createBatches_def createBatches_from_unfold
  slice_def policyPromise_def js_index_def recordPolicyResult_def addDownloadTime_def
  addAnalysisTime_def enumerate_eq_zip upt_rec Let_def

text \<open>The comparator on the candidates of the examples, and the sort of the example run.\<close>

lemma example_order:
  "sortCompare compareCandidates (example_candidate n c a s) (example_candidate n' c' a' s')
   = (case (confidenceOrder c', confidenceOrder c) of
        (Some cb, Some ca) \<Rightarrow>
          if cb - ca \<noteq> 0 then cb - ca
          else (case (answerOrder a', answerOrder a) of
                  (Some ab, Some aa) \<Rightarrow> if ab - aa \<noteq> 0 then ab - aa else s' - s
                | _ \<Rightarrow> 0)
      | _ \<Rightarrow> 0)"
  by (simp add: sortCompare_def compareCandidates_def example_candidate_def Let_def
      split: option.splits)

lemmas sort_eval =
  insertPivot_def binarySearch.simps countAndMakeRun_def example_order confidenceOrder_def
  answerOrder_def Let_def

lemma example_sort:
  "js_sort compareCandidates
     [example_candidate ''a.pdf'' ''low'' ''yes'' 90,
      example_candidate ''b.pdf'' ''high'' ''no'' 50,
      example_candidate ''c.pdf'' ''high'' ''no'' 50,
      example_candidate ''d.pdf'' ''high'' ''yes'' 40]
   = [example_candidate ''d.pdf'' ''high'' ''yes'' 40,
      example_candidate ''b.pdf'' ''high'' ''no'' 50,
      example_candidate ''c.pdf'' ''high'' ''no'' 50,
      example_candidate ''a.pdf'' ''low'' ''yes'' 90]"
proof -
  let ?ord = "sortCompare compareCandidates"
  let ?a = "example_candidate ''a.pdf'' ''low'' ''yes'' 90"
  let ?b = "example_candidate ''b.pdf'' ''high'' ''no'' 50"
  let ?c = "example_candidate ''c.pdf'' ''high'' ''no'' 50"
  let ?d = "example_candidate ''d.pdf'' ''high'' ''yes'' 40"
  have run: "countAndMakeRun ?ord [?a, ?b, ?c, ?d] = (2, [?b, ?a, ?c, ?d])"
    by (simp add: sort_eval)
  have i2: "insertPivot ?ord [?b, ?a, ?c, ?d] 2 = [?b, ?c, ?a, ?d]"
    by (simp add: sort_eval)
  have i3: "insertPivot ?ord [?b, ?c, ?a, ?d] 3 = [?d, ?b, ?c, ?a]"
    by (simp add: sort_eval)
  show ?thesis
    by (simp add: js_sort_def run binaryInsertionSort_def
        i2 [unfolded numeral_2_eq_2] i3 [unfolded numeral_3_eq_3])
qed

text \<open>
  Five candidates of which the third has the confidence \<^verbatim>\<open>High\<close>: the run at the start is
  the first two, descending, and is turned round; the third stays where it is, every
  comparison with it being \<^verbatim>\<open>NaN\<close>; the fourth and the fifth are inserted by the binary
  search among the others, and the third ends last.
\<close>

lemma js_sort_unranked:
  "js_sort compareCandidates
     [example_candidate ''p1.pdf'' ''low'' ''yes'' 10,
      example_candidate ''p2.pdf'' ''medium'' ''yes'' 10,
      example_candidate ''p3.pdf'' ''High'' ''yes'' 10,
      example_candidate ''p4.pdf'' ''high'' ''yes'' 10,
      example_candidate ''p5.pdf'' ''medium'' ''yes'' 10]
   = [example_candidate ''p4.pdf'' ''high'' ''yes'' 10,
      example_candidate ''p2.pdf'' ''medium'' ''yes'' 10,
      example_candidate ''p5.pdf'' ''medium'' ''yes'' 10,
      example_candidate ''p1.pdf'' ''low'' ''yes'' 10,
      example_candidate ''p3.pdf'' ''High'' ''yes'' 10]"
proof -
  let ?ord = "sortCompare compareCandidates"
  let ?p1 = "example_candidate ''p1.pdf'' ''low'' ''yes'' 10"
  let ?p2 = "example_candidate ''p2.pdf'' ''medium'' ''yes'' 10"
  let ?p3 = "example_candidate ''p3.pdf'' ''High'' ''yes'' 10"
  let ?p4 = "example_candidate ''p4.pdf'' ''high'' ''yes'' 10"
  let ?p5 = "example_candidate ''p5.pdf'' ''medium'' ''yes'' 10"
  have run: "countAndMakeRun ?ord [?p1, ?p2, ?p3, ?p4, ?p5] = (2, [?p2, ?p1, ?p3, ?p4, ?p5])"
    by (simp add: sort_eval)
  have i2: "insertPivot ?ord [?p2, ?p1, ?p3, ?p4, ?p5] 2 = [?p2, ?p1, ?p3, ?p4, ?p5]"
    by (simp add: sort_eval)
  have i3: "insertPivot ?ord [?p2, ?p1, ?p3, ?p4, ?p5] 3 = [?p4, ?p2, ?p1, ?p3, ?p5]"
    by (simp add: sort_eval)
  have i4: "insertPivot ?ord [?p4, ?p2, ?p1, ?p3, ?p5] 4 = [?p4, ?p2, ?p5, ?p1, ?p3]"
    by (simp add: sort_eval)
  have "(4::nat) = Suc (Suc (Suc (Suc 0)))" by simp
  note i4' = i4 [unfolded this]
  show ?thesis
    by (simp add: js_sort_def run binaryInsertionSort_def
        i2 [unfolded numeral_2_eq_2] i3 [unfolded numeral_3_eq_3] i4')
qed

lemma example_encountered:
  "encounteredCandidates example_env
   = [example_candidate ''a.pdf'' ''low'' ''yes'' 90,
      example_candidate ''b.pdf'' ''high'' ''no'' 50,
      example_candidate ''c.pdf'' ''high'' ''no'' 50,
      example_candidate ''d.pdf'' ''high'' ''yes'' 40]"
  by (simp add: encounteredCandidates_def process_eval example_env_def)

lemma example_run:
  "processQuestionParallel example_env q (initialStats 1)
   = (Inr [example_candidate ''d.pdf'' ''high'' ''yes'' 40,
           example_candidate ''b.pdf'' ''high'' ''no'' 50,
           example_candidate ''c.pdf'' ''high'' ''no'' 50,
           example_candidate ''a.pdf'' ''low'' ''yes'' 90],
      (initialStats 1)\<lparr>totalPoliciesChecked := 5, evidenceFound := 4, compliantAnswers := 2,
                        nonCompliantAnswers := 2, downloadTime := 120, analysisTime := 1600\<rparr>)"
proof -
  have r: "fst (processQuestionParallel example_env q (initialStats 1))
           = Inr [example_candidate ''d.pdf'' ''high'' ''yes'' 40,
                  example_candidate ''b.pdf'' ''high'' ''no'' 50,
                  example_candidate ''c.pdf'' ''high'' ''no'' 50,
                  example_candidate ''a.pdf'' ''low'' ''yes'' 90]"
    unfolding processQuestionParallel_result example_encountered example_sort
    by (simp add: example_env_def)
  have s: "snd (processQuestionParallel example_env q (initialStats 1))
           = (initialStats 1)\<lparr>totalPoliciesChecked := 5, evidenceFound := 4, compliantAnswers := 2,
                        nonCompliantAnswers := 2, downloadTime := 120, analysisTime := 1600\<rparr>"
    by (simp add: process_eval example_env_def example_candidate_def example_policy_def
        initialStats_def)
  from r s show ?thesis by (simp add: prod_eq_iff)
qed


subsection \<open>A batch of questions\<close>

lemma runBatchTasks_results:
  "fst (runBatchTasks batch st)
   = map (\<lambda>qe. fst (processQuestionParallel (snd qe) (fst qe) s0)) batch"
proof (induction batch arbitrary: st)
  case Nil
  show ?case by simp
next
  case (Cons qe rest)
  have "fst (processQuestionParallel (snd qe) (fst qe) st)
        = fst (processQuestionParallel (snd qe) (fst qe) s0)"
    by (rule processQuestionParallel_independent)
  with Cons.IH show ?case by (simp add: Let_def)
qed

lemma runBatchTasks_inv:
  "stats_inv st \<Longrightarrow> stats_inv (snd (runBatchTasks batch st))"
  by (induction batch arbitrary: st) (simp_all add: Let_def processQuestionParallel_inv)

lemma runBatchTasks_processed:
  "questionsProcessed (snd (runBatchTasks batch st)) = questionsProcessed st"
  by (induction batch arbitrary: st) (simp_all add: Let_def processQuestionParallel_processed)

lemma collectQuestionResult_inv:
  "stats_inv (snd acc) \<Longrightarrow> stats_inv (snd (collectQuestionResult q r acc))"
  by (cases acc; cases r) (simp_all add: collectQuestionResult_def stats_inv_def)

text \<open>
  The collection loop stores, for each question of the batch in turn, the value of a
  fulfilled task or the empty list of a rejected one, and counts the question.
\<close>

lemma collect_batch:
  "foldl (\<lambda>acc' (question, result). collectQuestionResult question result acc') (ebq, st)
         (zip (map fst batch) (allSettled (map out batch)))
   = (foldl (\<lambda>m qe. storeEvidence (fst qe) (case out qe of Inr value \<Rightarrow> value | Inl err \<Rightarrow> []) m) ebq batch,
      st\<lparr>questionsProcessed := questionsProcessed st + length batch\<rparr>)"
proof (induction batch arbitrary: ebq st)
  case Nil
  show ?case by (simp add: allSettled_def)
next
  case (Cons qe rest)
  show ?case
    using Cons.IH
    by (cases "out qe") (simp_all add: allSettled_def collectQuestionResult_def)
qed

lemma processQuestionBatch_eq:
  "processQuestionBatch batch acc
   = (foldl (\<lambda>m qe. storeEvidence (fst qe)
                (case fst (processQuestionParallel (snd qe) (fst qe) s0) of
                   Inr value \<Rightarrow> value | Inl err \<Rightarrow> []) m) (fst acc) batch,
      (snd (runBatchTasks batch (snd acc)))
         \<lparr>questionsProcessed := questionsProcessed (snd acc) + length batch\<rparr>)"
  unfolding processQuestionBatch_def Let_def runBatchTasks_results [of batch "snd acc" s0]
  by (simp add: collect_batch runBatchTasks_processed)

lemma processQuestionBatch_inv:
  "stats_inv (snd acc) \<Longrightarrow> stats_inv (snd (processQuestionBatch batch acc))"
  unfolding processQuestionBatch_eq [of batch acc "snd acc"]
  using runBatchTasks_inv [of "snd acc" batch] by (simp add: stats_inv_def)

lemma processQuestionBatch_processed:
  "questionsProcessed (snd (processQuestionBatch batch acc))
   = questionsProcessed (snd acc) + length batch"
  unfolding processQuestionBatch_eq [of batch acc "snd acc"] by simp

subsection \<open>All the batches\<close>

lemma batches_entries:
  "fst (foldl (\<lambda>acc batch. processQuestionBatch batch acc) acc batches)
   = foldl (\<lambda>m qe. storeEvidence (fst qe)
                (case fst (processQuestionParallel (snd qe) (fst qe) s0) of
                   Inr value \<Rightarrow> value | Inl err \<Rightarrow> []) m) (fst acc) (concat batches)"
  by (induction batches arbitrary: acc) (simp_all add: processQuestionBatch_eq [where ?s0.0 = s0])

lemma batches_inv:
  "stats_inv (snd acc) \<Longrightarrow>
   stats_inv (snd (foldl (\<lambda>acc batch. processQuestionBatch batch acc) acc batches))"
  by (induction batches arbitrary: acc) (simp_all add: processQuestionBatch_inv)

lemma batches_processed:
  "questionsProcessed (snd (foldl (\<lambda>acc batch. processQuestionBatch batch acc) acc batches))
   = questionsProcessed (snd acc) + length (concat batches)"
  by (induction batches arbitrary: acc) (simp_all add: processQuestionBatch_processed)

lemma evidenceByQuestion_eq:
  "fst (processQuestionsInParallel world questions)
   = foldl (\<lambda>m qe. storeEvidence (fst qe)
                (case fst (processQuestionParallel (snd qe) (fst qe) s0) of
                   Inr value \<Rightarrow> value | Inl err \<Rightarrow> []) m)
       emptyObject (zip questions (map world [0..<length questions]))"
  unfolding processQuestionsInParallel_def Let_def
  by (simp add: batches_entries [where ?s0.0 = s0] concat_createBatches)

lemma properties_storeEvidence:
  "properties (storeEvidence q v m) k
   = (if k = q_id q \<and> q_id q \<noteq> ''__proto__'' then Some v else properties m k)"
  by (simp add: storeEvidence_def)

lemma dom_storeEvidence:
  "dom (properties (storeEvidence q v m))
   = dom (properties m) \<union> ({q_id q} - {''__proto__''})"
  by (auto simp: storeEvidence_def)

lemma dom_foldl_store:
  "dom (properties (foldl (\<lambda>m x. storeEvidence (fst x) (val x) m) m0 xs))
   = dom (properties m0) \<union> ((\<lambda>x. q_id (fst x)) ` set xs - {''__proto__''})"
proof (induction xs arbitrary: m0)
  case Nil
  show ?case by simp
next
  case (Cons x xs)
  show ?case
    unfolding foldl_Cons Cons.IH dom_storeEvidence by auto
qed

lemma foldl_store_absent:
  "k \<notin> (\<lambda>x. q_id (fst x)) ` set xs \<Longrightarrow>
   properties (foldl (\<lambda>m x. storeEvidence (fst x) (val x) m) m0 xs) k = properties m0 k"
proof (induction xs arbitrary: m0)
  case Nil
  show ?case by simp
next
  case (Cons x xs)
  from Cons.prems have "k \<notin> (\<lambda>x. q_id (fst x)) ` set xs" and "k \<noteq> q_id (fst x)" by auto
  with Cons.IH [of "storeEvidence (fst x) (val x) m0"] show ?case
    by (simp add: properties_storeEvidence)
qed

lemma foldl_store_distinct:
  "distinct (map (\<lambda>x. q_id (fst x)) xs) \<Longrightarrow> i < length xs \<Longrightarrow>
   q_id (fst (xs ! i)) \<noteq> ''__proto__'' \<Longrightarrow>
   properties (foldl (\<lambda>m x. storeEvidence (fst x) (val x) m) m0 xs) (q_id (fst (xs ! i)))
   = Some (val (xs ! i))"
proof (induction xs arbitrary: m0 i)
  case Nil
  then show ?case by simp
next
  case (Cons x xs)
  show ?case
  proof (cases i)
    case 0
    from Cons.prems(1) have "q_id (fst x) \<notin> (\<lambda>x. q_id (fst x)) ` set xs" by simp
    from foldl_store_absent [OF this, of val "storeEvidence (fst x) (val x) m0"] Cons.prems(3) 0
    have "properties (foldl (\<lambda>m x. storeEvidence (fst x) (val x) m)
                        (storeEvidence (fst x) (val x) m0) xs) (q_id (fst x)) = Some (val x)"
      by (simp add: properties_storeEvidence)
    with 0 show ?thesis by simp
  next
    case (Suc j)
    with Cons show ?thesis by simp
  qed
qed

text \<open>
  What the collection loop guarantees. For questions whose ids are pairwise distinct
  keys, none of them \<^verbatim>\<open>__proto__\<close>: when the task of question \<open>k\<close> fails,
  \<^verbatim>\<open>evidenceByQuestion\<close> holds the empty list for question \<open>k\<close> and, for every question
  whose task succeeds, the list that task computed. The function is total: the
  failure of a task is a \<open>Rejected\<close> entry of \<open>allSettled\<close> and no branch of the
  function raises.
\<close>

lemma isolation_for_distinct_ids:
  assumes "distinct (map q_id questions)" and "\<forall>q\<in>set questions. q_id q \<noteq> ''__proto__''"
    and "k < length questions"
    and "fst (processQuestionParallel (world k) (questions ! k) st) = Inl err"
  shows "properties (fst (processQuestionsInParallel world questions)) (q_id (questions ! k)) = Some []
       \<and> (\<forall>j<length questions. \<forall>v st'.
            fst (processQuestionParallel (world j) (questions ! j) st') = Inr v
            \<longrightarrow> properties (fst (processQuestionsInParallel world questions)) (q_id (questions ! j))
                = Some v)"
proof -
  let ?zs = "zip questions (map world [0..<length questions])"
  let ?val = "\<lambda>qe. case fst (processQuestionParallel (snd qe) (fst qe) st) of
                       Inr v \<Rightarrow> v | Inl err \<Rightarrow> []"
  have len: "length ?zs = length questions" by simp
  have "map (\<lambda>x. q_id (fst x)) ?zs = map q_id (map fst ?zs)"
    by (simp only: map_map comp_def)
  also have "map fst ?zs = questions" by (simp add: map_fst_zip)
  finally have keys: "map (\<lambda>x. q_id (fst x)) ?zs = map q_id questions" .
  have nth: "\<And>i. i < length questions \<Longrightarrow> ?zs ! i = (questions ! i, world i)"
    by simp
  have look: "properties (fst (processQuestionsInParallel world questions)) (q_id (questions ! i))
              = Some (?val (questions ! i, world i))" if "i < length questions" for i
  proof -
    have d: "distinct (map (\<lambda>x. q_id (fst x)) ?zs)" unfolding keys by (rule assms(1))
    have i: "i < length ?zs" using that by simp
    have z: "?zs ! i = (questions ! i, world i)" by (rule nth [OF that])
    have "questions ! i \<in> set questions" using that by simp
    with assms(2) have "q_id (questions ! i) \<noteq> ''__proto__''" by blast
    then have p: "q_id (fst (?zs ! i)) \<noteq> ''__proto__''" unfolding z fst_conv .
    have e: "fst (processQuestionsInParallel world questions)
             = foldl (\<lambda>m qe. storeEvidence (fst qe) (?val qe) m) emptyObject ?zs"
      by (rule evidenceByQuestion_eq)
    have "properties (foldl (\<lambda>m qe. storeEvidence (fst qe) (?val qe) m) emptyObject ?zs)
            (q_id (fst (?zs ! i)))
          = Some (?val (?zs ! i))"
      by (rule foldl_store_distinct [OF d i p])
    then have "properties (foldl (\<lambda>m qe. storeEvidence (fst qe) (?val qe) m) emptyObject ?zs)
            (q_id (questions ! i))
          = Some (?val (questions ! i, world i))"
      unfolding z fst_conv .
    then show ?thesis unfolding e .
  qed
  have a: "properties (fst (processQuestionsInParallel world questions)) (q_id (questions ! k)) = Some []"
    using look [OF assms(3)] assms(4) by simp
  have b: "properties (fst (processQuestionsInParallel world questions)) (q_id (questions ! j)) = Some v"
    if "j < length questions" "fst (processQuestionParallel (world j) (questions ! j) st') = Inr v"
    for j v st'
  proof -
    have "fst (processQuestionParallel (world j) (questions ! j) st)
          = fst (processQuestionParallel (world j) (questions ! j) st')"
      by (rule processQuestionParallel_independent)
    with that(2) have "fst (processQuestionParallel (world j) (questions ! j) st) = Inr v"
      by (simp only:)
    with look [OF that(1)] show ?thesis by simp
  qed
  show ?thesis
  proof (intro conjI allI impI)
    show "properties (fst (processQuestionsInParallel world questions)) (q_id (questions ! k)) = Some []"
      by (rule a)
  next
    fix j v st'
    assume "j < length questions"
      and "fst (processQuestionParallel (world j) (questions ! j) st') = Inr v"
    then show "properties (fst (processQuestionsInParallel world questions)) (q_id (questions ! j)) = Some v"
      by (rule b)
  qed
qed

lemma failing_run:
  "processQuestionParallel failing_env q st
   = (Inl (ApiError 500 ''Failed to initialize Google Drive API''), st)"
  by (simp add: processQuestionParallel_def failing_env_def example_env_def slice_def Let_def)

text \<open>
  C1. Two questions that the extraction returned with the same id \<^verbatim>\<open>7\<close>, processed in
  one batch: the task of the first succeeds with four candidates, the task of the
  second fails in the existence check. Both results are stored under the one key
  \<^verbatim>\<open>7\<close>, the second over the first: the returned \<^verbatim>\<open>evidenceByQuestion\<close> has the single
  entry \<^verbatim>\<open>7\<close>, the empty list, and the evidence computed for the first question is not
  in it.
\<close>

theorem processQuestionsInParallel_repeated_id:
  "fst (processQuestionParallel example_env (example_question ''7'') (initialStats 2))
     = Inr [example_candidate ''d.pdf'' ''high'' ''yes'' 40,
            example_candidate ''b.pdf'' ''high'' ''no'' 50,
            example_candidate ''c.pdf'' ''high'' ''no'' 50,
            example_candidate ''a.pdf'' ''low'' ''yes'' 90]
   \<and> fst (processQuestionParallel failing_env (example_question ''7'') (initialStats 2))
     = Inl (ApiError 500 ''Failed to initialize Google Drive API'')
   \<and> fst (processQuestionsInParallel (\<lambda>i. if i = 1 then failing_env else example_env)
            [example_question ''7'', example_question ''7''])
     = \<lparr>properties = [''7'' \<mapsto> []], proto = None\<rparr>"
proof -
  let ?world = "\<lambda>i::nat. if i = 1 then failing_env else example_env"
  have a: "fst (processQuestionParallel example_env (example_question ''7'') (initialStats 2))
     = Inr [example_candidate ''d.pdf'' ''high'' ''yes'' 40,
            example_candidate ''b.pdf'' ''high'' ''no'' 50,
            example_candidate ''c.pdf'' ''high'' ''no'' 50,
            example_candidate ''a.pdf'' ''low'' ''yes'' 90]"
    using processQuestionParallel_independent
            [of example_env "example_question ''7''" "initialStats 2" "initialStats 1"]
      example_run [of "example_question ''7''"]
    by simp
  have b: "fst (processQuestionParallel failing_env (example_question ''7'') (initialStats 2))
     = Inl (ApiError 500 ''Failed to initialize Google Drive API'')"
    by (simp add: failing_run)
  have zs: "zip [example_question ''7'', example_question ''7''] (map ?world [0..<2])
            = [(example_question ''7'', example_env), (example_question ''7'', failing_env)]"
    by (simp add: upt_conv_Cons)
  have k: "q_id (example_question ''7'') = ''7''" by (simp add: example_question_def)
  have c: "fst (processQuestionsInParallel ?world [example_question ''7'', example_question ''7''])
     = \<lparr>properties = [''7'' \<mapsto> []], proto = None\<rparr>"
    unfolding evidenceByQuestion_eq [of ?world _ "initialStats 2"]
    using zs a b by (simp add: storeEvidence_def emptyObject_def k)
  from a b c show ?thesis by (intro conjI)
qed

text \<open>
  The relation between the counters: it holds for the stats as created and is kept by
  each of the steps that update the stats (the two additions of elapsed time, the
  callback over a settled analysis, the callback over a settled question), whatever the
  order in which the tasks of a batch take their steps; and it holds when the function
  returns. On return \<^verbatim>\<open>questionsProcessed\<close> is the number of input questions, and the
  keys of \<^verbatim>\<open>evidenceByQuestion\<close> are the ids of the input questions other than
  \<^verbatim>\<open>__proto__\<close>.
\<close>

lemma stats_relation_kept:
  "stats_inv (initialStats n)
   \<and> (stats_inv st \<longrightarrow>
         stats_inv (addDownloadTime ms st) \<and> stats_inv (addAnalysisTime ms st)
         \<and> stats_inv (snd (recordPolicyResult result (candidates, st)))
         \<and> stats_inv (snd (collectQuestionResult q settled (evidenceByQuestion, st))))
   \<and> stats_inv (snd (processQuestionsInParallel world questions))
   \<and> questionsProcessed (snd (processQuestionsInParallel world questions)) = length questions"
proof -
  have i0: "stats_inv (initialStats n)" for n
    by (simp add: stats_inv_def initialStats_def)
  have steps: "stats_inv st \<longrightarrow>
         stats_inv (addDownloadTime ms st) \<and> stats_inv (addAnalysisTime ms st)
         \<and> stats_inv (snd (recordPolicyResult result (candidates, st)))
         \<and> stats_inv (snd (collectQuestionResult q settled (evidenceByQuestion, st)))"
    using recordPolicyResult_inv [of "(candidates, st)" result]
      collectQuestionResult_inv [of "(evidenceByQuestion, st)" q settled]
    by (simp add: addDownloadTime_def addAnalysisTime_def stats_inv_def)
  have fin: "stats_inv (snd (processQuestionsInParallel world questions))"
    unfolding processQuestionsInParallel_def Let_def
    by (rule batches_inv) (simp add: i0)
  have cnt: "questionsProcessed (snd (processQuestionsInParallel world questions)) = length questions"
    unfolding processQuestionsInParallel_def Let_def
    by (simp add: batches_processed concat_createBatches initialStats_def)
  from i0 steps fin cnt show ?thesis by blast
qed

lemma evidenceByQuestion_keys:
  "dom (properties (fst (processQuestionsInParallel world questions)))
   = q_id ` set questions - {''__proto__''}"
proof -
  let ?zs = "zip questions (map world [0..<length questions])"
  have mf: "map fst ?zs = questions" by (simp add: map_fst_zip)
  have "(\<lambda>x. q_id (fst x)) ` set ?zs = q_id ` set (map fst ?zs)"
    by (simp only: set_map image_image)
  with mf have keys: "(\<lambda>x. q_id (fst x)) ` set ?zs = q_id ` set questions" by simp
  show ?thesis
    unfolding evidenceByQuestion_eq [of world questions "initialStats 0"] dom_foldl_store keys
    by (simp add: emptyObject_def)
qed

text \<open>
  C10. One question that the extraction returned with the id \<^verbatim>\<open>__proto__\<close>. Its task
  succeeds with four candidates and the question is counted, so that the counters
  satisfy the relation and \<^verbatim>\<open>questionsProcessed\<close> is 1; but the assignment
  \<^verbatim>\<open>evidenceByQuestion[question.id] = result.value\<close> makes the four candidates the
  prototype of \<^verbatim>\<open>evidenceByQuestion\<close>, and the returned object has no entry at all for
  the one input question.
\<close>

theorem processQuestionsInParallel_proto_id:
  "q_id ` set [example_question ''__proto__''] = {''__proto__''}
   \<and> fst (processQuestionsInParallel (\<lambda>i. example_env) [example_question ''__proto__''])
     = \<lparr>properties = Map.empty,
        proto = Some [example_candidate ''d.pdf'' ''high'' ''yes'' 40,
                      example_candidate ''b.pdf'' ''high'' ''no'' 50,
                      example_candidate ''c.pdf'' ''high'' ''no'' 50,
                      example_candidate ''a.pdf'' ''low'' ''yes'' 90]\<rparr>
   \<and> dom (properties (fst (processQuestionsInParallel (\<lambda>i. example_env)
                              [example_question ''__proto__''])))
     = {}
   \<and> questionsProcessed (snd (processQuestionsInParallel (\<lambda>i. example_env)
                                 [example_question ''__proto__'']))
     = 1
   \<and> stats_inv (snd (processQuestionsInParallel (\<lambda>i. example_env) [example_question ''__proto__'']))"
proof -
  let ?qs = "[example_question ''__proto__'']"
  have k: "q_id (example_question ''__proto__'') = ''__proto__''"
    by (simp add: example_question_def)
  have a: "fst (processQuestionParallel example_env (example_question ''__proto__'') (initialStats 1))
     = Inr [example_candidate ''d.pdf'' ''high'' ''yes'' 40,
            example_candidate ''b.pdf'' ''high'' ''no'' 50,
            example_candidate ''c.pdf'' ''high'' ''no'' 50,
            example_candidate ''a.pdf'' ''low'' ''yes'' 90]"
    using example_run [of "example_question ''__proto__''"] by simp
  have r: "fst (processQuestionsInParallel (\<lambda>i. example_env) ?qs)
     = \<lparr>properties = Map.empty,
        proto = Some [example_candidate ''d.pdf'' ''high'' ''yes'' 40,
                      example_candidate ''b.pdf'' ''high'' ''no'' 50,
                      example_candidate ''c.pdf'' ''high'' ''no'' 50,
                      example_candidate ''a.pdf'' ''low'' ''yes'' 90]\<rparr>"
    unfolding evidenceByQuestion_eq [of _ _ "initialStats 1"]
    using a by (simp add: storeEvidence_def emptyObject_def k)
  have d: "dom (properties (fst (processQuestionsInParallel (\<lambda>i. example_env) ?qs))) = {}"
    unfolding r by simp
  note s = stats_relation_kept [where world = "\<lambda>i. example_env" and questions = ?qs]
  from s have c: "questionsProcessed (snd (processQuestionsInParallel (\<lambda>i. example_env) ?qs)) = 1"
    by simp
  from s have i: "stats_inv (snd (processQuestionsInParallel (\<lambda>i. example_env) ?qs))"
    by blast
  from k r d c i show ?thesis by (intro conjI) simp_all
qed
section \<open>ContentStore\<close>

subsection \<open>Resolution of a descriptor\<close>

text \<open>
  The pairs (folder, request) held by the groups: adding a request adds the pair of the
  request with its own folder, and nothing else.
\<close>

lemma map_add_mem:
  "(f, rs') \<in> set (map (\<lambda>(folder, requests).
                          (folder, if folder = F then requests @ [x] else requests)) groups)
   \<longleftrightarrow> (\<exists>rs. (f, rs) \<in> set groups \<and> rs' = (if f = F then rs @ [x] else rs))"
  by (induction groups) auto

lemma addRequest_pairs:
  "{(f, r). \<exists>rs. (f, rs) \<in> set (addRequest groups req) \<and> r \<in> set rs}
   = insert (subfolderId req, req) {(f, r). \<exists>rs. (f, rs) \<in> set groups \<and> r \<in> set rs}"
proof (cases "subfolderId req \<in> fst ` set groups")
  case True
  then obtain rs0 where rs0: "(subfolderId req, rs0) \<in> set groups" by auto
  have eq: "addRequest groups req
            = map (\<lambda>(folder, requests).
                     (folder, if folder = subfolderId req then requests @ [req] else requests))
                  groups"
    using True by (simp add: addRequest_def)
  show ?thesis
  proof (intro set_eqI iffI)
    fix p assume "p \<in> {(f, r). \<exists>rs. (f, rs) \<in> set (addRequest groups req) \<and> r \<in> set rs}"
    then obtain f r rs' where p: "p = (f, r)" and m: "(f, rs') \<in> set (addRequest groups req)"
      and r: "r \<in> set rs'" by blast
    from m obtain rs where g: "(f, rs) \<in> set groups"
      and rs': "rs' = (if f = subfolderId req then rs @ [req] else rs)"
      unfolding eq map_add_mem by blast
    from r rs' have "r \<in> set rs \<or> (f = subfolderId req \<and> r = req)"
      by (cases "f = subfolderId req") auto
    with g p show "p \<in> insert (subfolderId req, req) {(f, r). \<exists>rs. (f, rs) \<in> set groups \<and> r \<in> set rs}"
      by blast
  next
    fix p assume "p \<in> insert (subfolderId req, req) {(f, r). \<exists>rs. (f, rs) \<in> set groups \<and> r \<in> set rs}"
    then consider "p = (subfolderId req, req)"
      | f r rs where "p = (f, r)" "(f, rs) \<in> set groups" "r \<in> set rs" by blast
    then show "p \<in> {(f, r). \<exists>rs. (f, rs) \<in> set (addRequest groups req) \<and> r \<in> set rs}"
    proof cases
      case 1
      from rs0 have "(subfolderId req, rs0 @ [req]) \<in> set (addRequest groups req)"
        unfolding eq map_add_mem by simp
      with 1 show ?thesis by auto
    next
      case 2
      from 2(2) have "(f, if f = subfolderId req then rs @ [req] else rs) \<in> set (addRequest groups req)"
        unfolding eq map_add_mem by blast
      moreover from 2(3) have "r \<in> set (if f = subfolderId req then rs @ [req] else rs)" by simp
      ultimately show ?thesis using 2(1) by blast
    qed
  qed
next
  case False
  then show ?thesis by (auto simp: addRequest_def)
qed

lemma groupByFolder_pairs:
  "{(f, r). \<exists>rs. (f, rs) \<in> set (groupByFolder reqs) \<and> r \<in> set rs}
   = (\<lambda>r. (subfolderId r, r)) ` set reqs"
  unfolding groupByFolder_def
proof (induction reqs rule: rev_induct)
  case Nil
  show ?case by simp
next
  case (snoc req reqs)
  show ?case
    by (simp only: foldl_append foldl_Cons foldl_Nil addRequest_pairs snoc.IH set_append
        list.set image_Un image_insert image_empty Un_insert_right Un_empty_right)
qed

text \<open>
  The value a folder task stores for a request, and the look-up of a key after a run
  of stores that all store the same value under that key.
\<close>

lemma processFolder_eq:
  "processFolder lc listPDFFiles (folder, requests) results
   = foldl (\<lambda>res req. setResult req
              (case listPDFFiles folder of Inr allFiles \<Rightarrow> find (fileMatches lc req) allFiles
               | Inl err \<Rightarrow> None) res) results requests"
  by (cases "listPDFFiles folder") (simp_all add: processFolder_def)

lemma setResult_apply:
  "setResult r file m k = (if k = resultKey r then Some file else m k)"
  by (simp add: setResult_def)

lemma foldl_setResult_lookup:
  assumes "\<forall>r\<in>set rs. resultKey r = k \<longrightarrow> V r = v"
  shows "foldl (\<lambda>res req. setResult req (V req) res) m rs k
         = (if \<exists>r\<in>set rs. resultKey r = k then Some v else m k)"
  using assms
proof (induction rs arbitrary: m)
  case Nil
  show ?case by simp
next
  case (Cons r rs)
  have IH: "foldl (\<lambda>res req. setResult req (V req) res) (setResult r (V r) m) rs k
        = (if \<exists>r\<in>set rs. resultKey r = k then Some v else setResult r (V r) m k)"
    using Cons.prems by (intro Cons.IH) simp
  show ?case
  proof (cases "\<exists>r'\<in>set rs. resultKey r' = k")
    case True
    with IH show ?thesis by simp
  next
    case False
    with IH have "foldl (\<lambda>res req. setResult req (V req) res) (setResult r (V r) m) rs k
                  = setResult r (V r) m k" by simp
    also have "\<dots> = (if k = resultKey r then Some (V r) else m k)" by (rule setResult_apply)
    finally show ?thesis using False Cons.prems by auto
  qed
qed

lemma folders_lookup:
  assumes "\<forall>(f, rs)\<in>set groups. \<forall>r\<in>set rs. resultKey r = k \<longrightarrow>
             (case listPDFFiles f of Inr allFiles \<Rightarrow> find (fileMatches lc r) allFiles
              | Inl err \<Rightarrow> None) = v"
  shows "foldl (\<lambda>results folderRequests. processFolder lc listPDFFiles folderRequests results)
           m groups k
         = (if \<exists>(f, rs)\<in>set groups. \<exists>r\<in>set rs. resultKey r = k then Some v else m k)"
  using assms
proof (induction groups arbitrary: m)
  case Nil
  show ?case by simp
next
  case (Cons g groups)
  obtain f rs where g: "g = (f, rs)" by (cases g)
  let ?V = "\<lambda>req. case listPDFFiles f of Inr allFiles \<Rightarrow> find (fileMatches lc req) allFiles
                    | Inl err \<Rightarrow> None"
  have one: "processFolder lc listPDFFiles g m k
             = (if \<exists>r\<in>set rs. resultKey r = k then Some v else m k)"
    unfolding g processFolder_eq
    using Cons.prems g by (intro foldl_setResult_lookup) auto
  have rest: "foldl (\<lambda>results folderRequests. processFolder lc listPDFFiles folderRequests results)
                (processFolder lc listPDFFiles g m) groups k
              = (if \<exists>(f, rs)\<in>set groups. \<exists>r\<in>set rs. resultKey r = k then Some v
                 else processFolder lc listPDFFiles g m k)"
    using Cons.prems by (intro Cons.IH) simp
  show ?case
    using one rest g by auto
qed

lemma batchFindPolicyFiles_lookup:
  assumes "req \<in> set reqs"
    and "\<forall>r\<in>set reqs. resultKey r = resultKey req \<longrightarrow> r = req"
  shows "batchFindPolicyFiles lc listPDFFiles arrival reqs (resultKey req)
         = Some (case listPDFFiles (subfolderId req) of
                   Inr allFiles \<Rightarrow> find (fileMatches lc req) allFiles | Inl err \<Rightarrow> None)"
proof -
  let ?groups = "sort_key (\<lambda>folderRequests. arrival (fst folderRequests)) (groupByFolder reqs)"
  have set_groups: "set ?groups = set (groupByFolder reqs)" by simp
  have mem: "(f, rs) \<in> set ?groups \<Longrightarrow> r \<in> set rs \<Longrightarrow> f = subfolderId r \<and> r \<in> set reqs" for f rs r
  proof -
    assume "(f, rs) \<in> set ?groups" "r \<in> set rs"
    then have "(f, r) \<in> {(f, r). \<exists>rs. (f, rs) \<in> set (groupByFolder reqs) \<and> r \<in> set rs}"
      unfolding set_groups by blast
    then show ?thesis unfolding groupByFolder_pairs by auto
  qed
  have "(subfolderId req, req) \<in> {(f, r). \<exists>rs. (f, rs) \<in> set (groupByFolder reqs) \<and> r \<in> set rs}"
    unfolding groupByFolder_pairs using assms(1) by blast
  then have ex: "\<exists>(f, rs)\<in>set ?groups. \<exists>r\<in>set rs. resultKey r = resultKey req"
    unfolding set_groups by blast
  have same: "\<forall>(f, rs)\<in>set ?groups. \<forall>r\<in>set rs. resultKey r = resultKey req \<longrightarrow>
             (case listPDFFiles f of Inr allFiles \<Rightarrow> find (fileMatches lc r) allFiles
              | Inl err \<Rightarrow> None)
             = (case listPDFFiles (subfolderId req) of
                  Inr allFiles \<Rightarrow> find (fileMatches lc req) allFiles | Inl err \<Rightarrow> None)"
  proof (intro ballI impI, clarify)
    fix f rs r assume "(f, rs) \<in> set ?groups" "r \<in> set rs" "resultKey r = resultKey req"
    with mem [of f rs r] assms(2) have e: "r = req" "f = subfolderId req" by auto
    show "(case listPDFFiles f of Inr allFiles \<Rightarrow> find (fileMatches lc r) allFiles
              | Inl err \<Rightarrow> None)
             = (case listPDFFiles (subfolderId req) of
                  Inr allFiles \<Rightarrow> find (fileMatches lc req) allFiles | Inl err \<Rightarrow> None)"
      unfolding e ..
  qed
  show ?thesis
    unfolding batchFindPolicyFiles_def folders_lookup [OF same] using ex by simp
qed

text \<open>
  What the code resolves a descriptor to, whatever the order in which the listings
  arrive: a descriptor whose result key no other descriptor of the batch shares is
  resolved against the listing of its own folder, to the first listed file whose
  lower-cased name contains the lower-cased name of the descriptor (extension
  included), or whose lower-cased name up to its first dot is contained in the
  lower-cased name of the descriptor; to \<^verbatim>\<open>null\<close> if no listed file is such, and to
  \<^verbatim>\<open>null\<close> if the listing of the folder fails.
\<close>

lemma batchFindPolicyFiles_first_match:
  assumes "req \<in> set reqs"
    and "\<forall>r\<in>set reqs. resultKey r = resultKey req \<longrightarrow> r = req"
  shows "(listPDFFiles (subfolderId req) = Inl err
            \<longrightarrow> batchFindPolicyFiles lc listPDFFiles arrival reqs (resultKey req) = Some None)
       \<and> (listPDFFiles (subfolderId req) = Inr allFiles
            \<longrightarrow> (batchFindPolicyFiles lc listPDFFiles arrival reqs (resultKey req) = Some (Some found)
                  \<longleftrightarrow> (\<exists>i<length allFiles. found = allFiles ! i
                         \<and> (str_includes (lc (f_name found)) (lc (policyName req))
                            \<or> str_includes (lc (policyName req)) (before_first_dot (lc (f_name found))))
                         \<and> (\<forall>j<i. \<not> (str_includes (lc (f_name (allFiles ! j))) (lc (policyName req))
                                    \<or> str_includes (lc (policyName req))
                                         (before_first_dot (lc (f_name (allFiles ! j))))))))
               \<and> (batchFindPolicyFiles lc listPDFFiles arrival reqs (resultKey req) = Some None
                  \<longleftrightarrow> (\<forall>f\<in>set allFiles.
                         \<not> (str_includes (lc (f_name f)) (lc (policyName req))
                            \<or> str_includes (lc (policyName req)) (before_first_dot (lc (f_name f)))))))"
proof -
  note look = batchFindPolicyFiles_lookup [OF assms, of lc listPDFFiles arrival]
  have fail: "listPDFFiles (subfolderId req) = Inl err
              \<longrightarrow> batchFindPolicyFiles lc listPDFFiles arrival reqs (resultKey req) = Some None"
    using look by simp
  have ok: "batchFindPolicyFiles lc listPDFFiles arrival reqs (resultKey req)
            = Some (find (fileMatches lc req) allFiles)"
    if "listPDFFiles (subfolderId req) = Inr allFiles"
    using look that by simp
  have some: "find (fileMatches lc req) allFiles = Some found
        \<longleftrightarrow> (\<exists>i<length allFiles. found = allFiles ! i
                         \<and> (str_includes (lc (f_name found)) (lc (policyName req))
                            \<or> str_includes (lc (policyName req)) (before_first_dot (lc (f_name found))))
                         \<and> (\<forall>j<i. \<not> (str_includes (lc (f_name (allFiles ! j))) (lc (policyName req))
                                    \<or> str_includes (lc (policyName req))
                                         (before_first_dot (lc (f_name (allFiles ! j)))))))"
    unfolding find_Some_iff fileMatches_def by blast
  have none: "find (fileMatches lc req) allFiles = None
        \<longleftrightarrow> (\<forall>f\<in>set allFiles.
                         \<not> (str_includes (lc (f_name f)) (lc (policyName req))
                            \<or> str_includes (lc (policyName req)) (before_first_dot (lc (f_name f)))))"
    unfolding find_None_iff fileMatches_def by blast
  show ?thesis
    using fail ok some none by simp
qed

lemma lower_examples:
  "toLowerCase ''Privacy Policy.pdf'' = ''privacy policy.pdf''"
  "toLowerCase ''Data Retention.pdf'' = ''data retention.pdf''"
  "toLowerCase ''HR Policy.pdf'' = ''hr policy.pdf''"
  "toLowerCase ''Privacy.pdf'' = ''privacy.pdf''"
  "toLowerCase ''Privacy'' = ''privacy''"
  "toLowerCase ''HR Policy v2'' = ''hr policy v2''"
  unfolding toLowerCase_def lower_unit_def by code_simp+

lemmas resolve_eval =
  findPolicyFileOptimized_def batchFindPolicyFiles_def groupByFolder_def addRequest_def
  processFolder_def setResult_def fileMatches_def before_first_dot_def example_listing_def
  resultKey_def lower_examples Let_def

text \<open>
  The other direction: the descriptor \<^verbatim>\<open>HR Policy v2\<close> and the listed file
  \<^verbatim>\<open>HR Policy.pdf\<close>. Neither name contains the other, but the listed name up to its
  first dot, \<^verbatim>\<open>hr policy\<close>, is contained in the name of the descriptor, and the code
  resolves the descriptor to the file.
\<close>

lemma batchFindPolicyFiles_listed_name_cut:
  "batchFindPolicyFiles toLowerCase example_listing arrival
       [\<lparr>policyName = ''HR Policy v2'', subfolderId = ''folder-hr''\<rparr>]
       (resultKey \<lparr>policyName = ''HR Policy v2'', subfolderId = ''folder-hr''\<rparr>)
     = Some (Some \<lparr>f_id = ''id-3'', f_name = ''HR Policy.pdf''\<rparr>)
   \<and> find (matches_as_specified toLowerCase \<lparr>policyName = ''HR Policy v2'', subfolderId = ''folder-hr''\<rparr>)
        [\<lparr>f_id = ''id-3'', f_name = ''HR Policy.pdf''\<rparr>]
      = None"
proof -
  have w: "without_extension ''HR Policy v2'' = ''HR Policy v2''"
    by (simp add: without_extension_def)
  have c: "batchFindPolicyFiles toLowerCase example_listing arrival
       [\<lparr>policyName = ''HR Policy v2'', subfolderId = ''folder-hr''\<rparr>]
       (resultKey \<lparr>policyName = ''HR Policy v2'', subfolderId = ''folder-hr''\<rparr>)
     = Some (Some \<lparr>f_id = ''id-3'', f_name = ''HR Policy.pdf''\<rparr>)"
    by (simp add: resolve_eval)
  have d: "find (matches_as_specified toLowerCase \<lparr>policyName = ''HR Policy v2'', subfolderId = ''folder-hr''\<rparr>)
        [\<lparr>f_id = ''id-3'', f_name = ''HR Policy.pdf''\<rparr>]
      = None"
    by (simp add: matches_as_specified_def w lower_examples)
  from c d show ?thesis by (intro conjI)
qed

text \<open>
  C8. The descriptor \<^verbatim>\<open>Privacy.pdf\<close> in a folder that lists \<^verbatim>\<open>Privacy Policy.pdf\<close>. The
  name of the descriptor without its extension, \<^verbatim>\<open>privacy\<close>, is contained in the listed
  name: the match of the specification resolves the descriptor to the file, and so does
  the match of \<^verbatim>\<open>preloadPolicyMetadata\<close>, which takes \<^verbatim>\<open>.pdf\<close> off the name of the
  descriptor. \<^verbatim>\<open>batchFindPolicyFiles\<close> looks for the name with its extension and
  resolves the descriptor to \<^verbatim>\<open>null\<close>, at whatever time the listing arrives.
\<close>

theorem batchFindPolicyFiles_descriptor_extension:
  "batchFindPolicyFiles toLowerCase example_listing arrival
       [\<lparr>policyName = ''Privacy.pdf'', subfolderId = ''folder-privacy''\<rparr>]
       (resultKey \<lparr>policyName = ''Privacy.pdf'', subfolderId = ''folder-privacy''\<rparr>)
     = Some None
   \<and> findPolicyFileOptimized toLowerCase example_listing ''Privacy.pdf'' ''folder-privacy'' = None
   \<and> example_listing ''folder-privacy''
      = Inr [\<lparr>f_id = ''id-1'', f_name = ''Privacy Policy.pdf''\<rparr>,
             \<lparr>f_id = ''id-2'', f_name = ''Data Retention.pdf''\<rparr>]
   \<and> find (matches_as_specified toLowerCase \<lparr>policyName = ''Privacy.pdf'', subfolderId = ''folder-privacy''\<rparr>)
        [\<lparr>f_id = ''id-1'', f_name = ''Privacy Policy.pdf''\<rparr>,
         \<lparr>f_id = ''id-2'', f_name = ''Data Retention.pdf''\<rparr>]
      = Some \<lparr>f_id = ''id-1'', f_name = ''Privacy Policy.pdf''\<rparr>
   \<and> find (preloadFileMatches toLowerCase ''Privacy.pdf'')
        [\<lparr>f_id = ''id-1'', f_name = ''Privacy Policy.pdf''\<rparr>,
         \<lparr>f_id = ''id-2'', f_name = ''Data Retention.pdf''\<rparr>]
      = Some \<lparr>f_id = ''id-1'', f_name = ''Privacy Policy.pdf''\<rparr>"
proof -
  have w: "without_extension ''Privacy.pdf'' = ''Privacy''"
    by (simp add: without_extension_def)
  have a: "batchFindPolicyFiles toLowerCase example_listing arrival
       [\<lparr>policyName = ''Privacy.pdf'', subfolderId = ''folder-privacy''\<rparr>]
       (resultKey \<lparr>policyName = ''Privacy.pdf'', subfolderId = ''folder-privacy''\<rparr>)
     = Some None"
    by (simp add: resolve_eval)
  have b: "findPolicyFileOptimized toLowerCase example_listing ''Privacy.pdf'' ''folder-privacy'' = None"
    by (simp add: resolve_eval)
  have l: "example_listing ''folder-privacy''
      = Inr [\<lparr>f_id = ''id-1'', f_name = ''Privacy Policy.pdf''\<rparr>,
             \<lparr>f_id = ''id-2'', f_name = ''Data Retention.pdf''\<rparr>]"
    by (simp add: example_listing_def)
  have c: "find (matches_as_specified toLowerCase \<lparr>policyName = ''Privacy.pdf'', subfolderId = ''folder-privacy''\<rparr>)
        [\<lparr>f_id = ''id-1'', f_name = ''Privacy Policy.pdf''\<rparr>,
         \<lparr>f_id = ''id-2'', f_name = ''Data Retention.pdf''\<rparr>]
      = Some \<lparr>f_id = ''id-1'', f_name = ''Privacy Policy.pdf''\<rparr>"
    by (simp add: matches_as_specified_def w lower_examples)
  have d: "find (preloadFileMatches toLowerCase ''Privacy.pdf'')
        [\<lparr>f_id = ''id-1'', f_name = ''Privacy Policy.pdf''\<rparr>,
         \<lparr>f_id = ''id-2'', f_name = ''Data Retention.pdf''\<rparr>]
      = Some \<lparr>f_id = ''id-1'', f_name = ''Privacy Policy.pdf''\<rparr>"
    by (simp add: preloadFileMatches_def lower_examples Let_def)
  from a b l c d show ?thesis by (intro conjI)
qed
subsection \<open>Expiry of cache entries\<close>


























end
